theory Spec2Isabelle
  imports Complex_Main "HOL-Library.AList" "HOL-Library.Sublist"
begin

section \<open>Python values and dictionaries\<close>

text \<open>
  A Python \<open>dict\<close> is an association list in insertion order: \<open>map_of d k\<close> is
  \<open>d.get(k)\<close>, \<open>AList.update k v d\<close> is \<open>d[k] = v\<close> (an existing key keeps its
  position, a new key goes to the end).
\<close>

type_synonym ('k, 'v) dict = "('k \<times> 'v) list"

text \<open>
  Dynamically typed values (\<open>Any\<close> in the source's annotations). A \<open>str\<close> is a list of
  characters, a \<open>char\<close> standing for the code point of its number (\<open>U+0000\<close> to \<open>U+00FF\<close>):
  text with a code point above this range is not represented. Floats are carried as
  rationals and only passed through.
\<close>

datatype pyval =
    PNone
  | PBool bool
  | PInt int
  | PFloat rat
  | PStr string
  | PList "pyval list"
  | PDict "(string \<times> pyval) list"

text \<open>
  The exceptions that the modelled code can raise; \<open>WorkerError\<close> carries the message of an
  exception raised by a collaborator outside the orchestration.
\<close>

datatype py_error = KeyError | TypeError | AttributeError | EOFError | WorkerError string

text \<open>The truth value of a Python value (\<open>if val:\<close>, \<open>x or y\<close>).\<close>

fun truthy :: "pyval \<Rightarrow> bool" where
  "truthy PNone = False"
| "truthy (PBool b) = b"
| "truthy (PInt i) = (i \<noteq> 0)"
| "truthy (PFloat r) = (r \<noteq> 0)"
| "truthy (PStr s) = (s \<noteq> [])"
| "truthy (PList xs) = (xs \<noteq> [])"
| "truthy (PDict kvs) = (kvs \<noteq> [])"

text \<open>\<open>d.get(key)\<close> and \<open>d.get(key, default)\<close>\<close>

definition dict_get :: "(string, pyval) dict \<Rightarrow> string \<Rightarrow> pyval" where
  "dict_get d key = (case map_of d key of None \<Rightarrow> PNone | Some v \<Rightarrow> v)"

definition dict_get_default :: "(string, pyval) dict \<Rightarrow> string \<Rightarrow> pyval \<Rightarrow> pyval" where
  "dict_get_default d key dflt = (case map_of d key of None \<Rightarrow> dflt | Some v \<Rightarrow> v)"

text \<open>\<open>isinstance(v, str)\<close>\<close>

definition is_str :: "pyval \<Rightarrow> bool" where
  "is_str v = (case v of PStr s \<Rightarrow> True | _ \<Rightarrow> False)"

text \<open>
  The elements a \<open>for\<close> loop or a comprehension draws from a value: those of a list, the
  characters of a string, the keys of a dict; any other value is not iterable.
\<close>

definition iterate :: "pyval \<Rightarrow> py_error + pyval list" where
  "iterate v =
     (case v of
        PList xs \<Rightarrow> Inr xs
      | PStr s \<Rightarrow> Inr (map (\<lambda>c. PStr [c]) s)
      | PDict kvs \<Rightarrow> Inr (map (\<lambda>kv. PStr (fst kv)) kvs)
      | _ \<Rightarrow> Inl TypeError)"

section \<open>Characters and strings\<close>

text \<open>
  The character properties that the code relies on, as Unicode defines them for the code
  points \<open>U+0000\<close> to \<open>U+00FF\<close>.

  Whitespace, for \<open>str.split()\<close>, \<open>str.strip()\<close> and \<open>\s\<close> in a \<open>str\<close> pattern: tab, line
  feed, vertical tab, form feed, carriage return, the four separators \<open>U+001C\<close> to
  \<open>U+001F\<close>, space, next line \<open>U+0085\<close> and no-break space \<open>U+00A0\<close>.
\<close>

definition is_space :: "char \<Rightarrow> bool" where
  "is_space c = (let n = (of_char c :: nat) in
     (9 \<le> n \<and> n \<le> 13) \<or> (28 \<le> n \<and> n \<le> 32) \<or> n = 133 \<or> n = 160)"

text \<open>\<open>\d\<close> in a \<open>str\<close> pattern: the decimal digits, in this range \<open>0\<close> to \<open>9\<close>.\<close>

definition is_digit :: "char \<Rightarrow> bool" where
  "is_digit c = (let n = (of_char c :: nat) in 48 \<le> n \<and> n \<le> 57)"

text \<open>
  \<open>\w\<close> in a \<open>str\<close> pattern: the alphanumeric characters and the underscore. Beyond ASCII
  these are the ordinal indicators \<open>U+00AA\<close> and \<open>U+00BA\<close>, the micro sign \<open>U+00B5\<close>, the
  superscript digits \<open>U+00B2\<close>, \<open>U+00B3\<close> and \<open>U+00B9\<close>, the fractions \<open>U+00BC\<close> to
  \<open>U+00BE\<close>, and the letters \<open>U+00C0\<close> to \<open>U+00FF\<close>, which leave out the multiplication
  sign \<open>U+00D7\<close> and the division sign \<open>U+00F7\<close>.
\<close>

definition is_word :: "char \<Rightarrow> bool" where
  "is_word c = (let n = (of_char c :: nat) in
     (48 \<le> n \<and> n \<le> 57) \<or> (65 \<le> n \<and> n \<le> 90) \<or> (97 \<le> n \<and> n \<le> 122) \<or> n = 95 \<or>
     n = 170 \<or> n = 178 \<or> n = 179 \<or> n = 181 \<or> n = 185 \<or> n = 186 \<or>
     (188 \<le> n \<and> n \<le> 190) \<or> (192 \<le> n \<and> n \<le> 214) \<or> (216 \<le> n \<and> n \<le> 246) \<or>
     (248 \<le> n \<and> n \<le> 255))"

text \<open>
  \<open>str.lower()\<close>: the capital letters of the range are \<open>A\<close> to \<open>Z\<close> and \<open>U+00C0\<close> to
  \<open>U+00DE\<close> without \<open>U+00D7\<close>; the small letter of each is 32 code points further on, which
  sets bit 5 of the code point.
\<close>

fun set_bit5 :: "bool \<Rightarrow> char \<Rightarrow> char" where
  "set_bit5 b (Char b0 b1 b2 b3 b4 b5 b6 b7) = Char b0 b1 b2 b3 b4 b b6 b7"

definition char_lower :: "char \<Rightarrow> char" where
  "char_lower c = (let n = (of_char c :: nat) in
     if (65 \<le> n \<and> n \<le> 90) \<or> (192 \<le> n \<and> n \<le> 214) \<or> (216 \<le> n \<and> n \<le> 222)
     then set_bit5 True c else c)"

definition lower :: "string \<Rightarrow> string" where
  "lower s = map char_lower s"

text \<open>
  \<open>str.capitalize()\<close>: the first character in title case, the others as \<open>str.lower()\<close>
  makes them. The small letters with a capital in the range are \<open>a\<close> to \<open>z\<close> and
  \<open>U+00E0\<close> to \<open>U+00FE\<close> without \<open>U+00F7\<close>, and the title case of \<open>U+00DF\<close> is \<open>Ss\<close>; a
  first character \<open>U+00B5\<close> or \<open>U+00FF\<close>, whose capital lies above the range, is kept.
\<close>

definition char_title :: "char \<Rightarrow> string" where
  "char_title c = (let n = (of_char c :: nat) in
     if (97 \<le> n \<and> n \<le> 122) \<or> (224 \<le> n \<and> n \<le> 246) \<or> (248 \<le> n \<and> n \<le> 254)
     then [set_bit5 False c]
     else if n = 223 then ''Ss'' else [c])"

definition capitalize :: "string \<Rightarrow> string" where
  "capitalize s = (case s of [] \<Rightarrow> [] | c # cs \<Rightarrow> char_title c @ map char_lower cs)"

section \<open>The pipeline state (\<open>app/graph/state.py\<close>)\<close>

text \<open>The \<open>Draft\<close> TypedDict.\<close>

record draft =
  channel :: string
  subject :: "string option"
  body :: string
  score :: "rat option"
  approved :: bool
  sent :: bool

text \<open>
  The \<open>OutreachState\<close> TypedDict (\<open>total=False\<close>: every key may be absent). The keys
  the orchestration code reads are fields of their own (\<open>st_status\<close> is the key
  \<open>status\<close>); all remaining keys are kept in \<open>other\<close>.
\<close>

record outreach_state =
  drafts :: "draft list option"
  approved_channels :: "string list option"
  st_status :: "string option"
  other :: "(string, pyval) dict"

definition empty_state :: outreach_state where
  "empty_state = \<lparr>drafts = None, approved_channels = None, st_status = None, other = []\<rparr>"

section \<open>The campaign registry (\<open>app/api/state_manager.py\<close>)\<close>

text \<open>One entry of a campaign's \<open>stages\<close> table; the initial entries have no timestamp.\<close>

record stage_entry =
  se_status :: string
  se_message :: string
  se_timestamp :: "nat option"

text \<open>The campaign dictionary built by \<open>create_campaign\<close> (\<open>cid\<close> is the key \<open>id\<close>).\<close>

record campaign =
  cid :: string
  status :: string
  current_stage :: string
  input :: "(string, pyval) dict"
  state :: outreach_state
  created_at :: nat
  stages :: "(string, stage_entry) dict"
  error :: "string option"

text \<open>The event dictionary built by \<open>update_stage\<close>.\<close>

record event =
  ev_type :: string
  ev_stage :: string
  ev_status :: string
  ev_message :: string
  ev_timestamp :: nat

text \<open>
  The \<open>StateManager\<close> object together with the part of the interpreter it acts on:
  \<^item> \<open>campaigns\<close>, \<open>event_queues\<close>: the two attributes of the class; a subscriber's
    \<open>asyncio.Queue\<close> is an object with identity, so \<open>event_queues\<close> holds handles
    (addresses) and \<open>queue_store\<close> maps a handle to the queue's contents, oldest first;
    \<open>next_queue\<close> is the next unused handle;
  \<^item> \<open>ready\<close>: the tasks made by \<open>asyncio.create_task(self._broadcast_event(...))\<close> that
    the event loop has not run yet, in creation order;
  \<^item> \<open>clock\<close>: a logical clock, read and advanced by every \<open>datetime.utcnow()\<close>.
\<close>

record state_manager =
  campaigns :: "(string, campaign) dict"
  event_queues :: "(string, nat list) dict"
  queue_store :: "nat \<Rightarrow> event list"
  next_queue :: nat
  ready :: "(string \<times> event) list"
  clock :: nat

text \<open>\<open>StateManager.__init__\<close>, in a fresh interpreter.\<close>

definition init_manager :: state_manager where
  "init_manager = \<lparr>campaigns = [], event_queues = [], queue_store = (\<lambda>_. []),
     next_queue = 0, ready = [], clock = 0\<rparr>"

definition utcnow :: "state_manager \<Rightarrow> nat \<times> state_manager" where
  "utcnow s = (clock s, s\<lparr>clock := Suc (clock s)\<rparr>)"


definition pending_entry :: stage_entry where
  "pending_entry = \<lparr>se_status = ''pending'', se_message = '''', se_timestamp = None\<rparr>"

text \<open>
  \<open>create_campaign\<close>. The id is \<open>str(uuid.uuid4())\<close>; the generated string is the
  parameter \<open>uuid\<close>. The result is the returned id and the manager afterwards.
\<close>

definition create_campaign ::
  "string \<Rightarrow> (string, pyval) dict \<Rightarrow> state_manager \<Rightarrow> string \<times> state_manager" where
  "create_campaign uuid input_data s =
     (let campaign_id = uuid;
          (now, s1) = utcnow s;
          c = \<lparr>cid = campaign_id, status = ''created'', current_stage = ''pending'',
               input = input_data, state = empty_state, created_at = now,
               stages = [(''ingestion'', pending_entry), (''persona'', pending_entry),
                         (''drafting'', pending_entry), (''scoring'', pending_entry),
                         (''approval'', pending_entry), (''execution'', pending_entry),
                         (''persistence'', pending_entry)],
               error = None\<rparr>
      in (campaign_id,
          s1\<lparr>campaigns := AList.update campaign_id c (campaigns s1),
             event_queues := AList.update campaign_id [] (event_queues s1)\<rparr>))"

definition get_campaign :: "state_manager \<Rightarrow> string \<Rightarrow> campaign option" where
  "get_campaign s campaign_id = map_of (campaigns s) campaign_id"

text \<open>
  \<open>update_stage\<close>. \<open>asyncio.create_task\<close> only schedules the broadcast: the task is
  appended to \<open>ready\<close>. (The caller runs inside the event loop, as
  \<open>run_campaign_workflow\<close> does.)
\<close>

definition update_stage ::
  "string \<Rightarrow> string \<Rightarrow> string \<Rightarrow> string \<Rightarrow> state_manager \<Rightarrow> state_manager" where
  "update_stage campaign_id stage stat message s =
     (case map_of (campaigns s) campaign_id of
        None \<Rightarrow> s
      | Some c \<Rightarrow>
          (let (t1, s1) = utcnow s;
               c1 = c\<lparr>stages := AList.update stage
                      \<lparr>se_status = stat, se_message = message, se_timestamp = Some t1\<rparr>
                      (stages c)\<rparr>;
               c2 = c1\<lparr>current_stage := stage\<rparr>;
               (t2, s2) = utcnow s1;
               ev = \<lparr>ev_type = ''stage_update'', ev_stage = stage, ev_status = stat,
                     ev_message = message, ev_timestamp = t2\<rparr>
           in s2\<lparr>campaigns := AList.update campaign_id c2 (campaigns s2),
                 ready := ready s2 @ [(campaign_id, ev)]\<rparr>))"

text \<open>\<open>update_state\<close>: \<open>state.get("status", "running")\<close> is the new campaign status.\<close>

definition update_state :: "string \<Rightarrow> outreach_state \<Rightarrow> state_manager \<Rightarrow> state_manager" where
  "update_state campaign_id st s =
     (case map_of (campaigns s) campaign_id of
        None \<Rightarrow> s
      | Some c \<Rightarrow>
          (let c1 = c\<lparr>state := st\<rparr>;
               c2 = c1\<lparr>status := (case st_status st of Some v \<Rightarrow> v | None \<Rightarrow> ''running'')\<rparr>
           in s\<lparr>campaigns := AList.update campaign_id c2 (campaigns s)\<rparr>))"

text \<open>
  \<open>_broadcast_event\<close>: the queues are unbounded, so \<open>await queue.put(event)\<close> appends
  without suspending and without raising.
\<close>

definition queue_put :: "event \<Rightarrow> nat \<Rightarrow> state_manager \<Rightarrow> state_manager" where
  "queue_put ev q s = s\<lparr>queue_store := (queue_store s)(q := queue_store s q @ [ev])\<rparr>"

definition broadcast_event :: "string \<Rightarrow> event \<Rightarrow> state_manager \<Rightarrow> state_manager" where
  "broadcast_event campaign_id ev s =
     (case map_of (event_queues s) campaign_id of
        None \<Rightarrow> s
      | Some qs \<Rightarrow> fold (queue_put ev) qs s)"

text \<open>\<open>subscribe\<close> allocates a new queue and returns its handle.\<close>

definition subscribe :: "string \<Rightarrow> state_manager \<Rightarrow> nat \<times> state_manager" where
  "subscribe campaign_id s =
     (let q = next_queue s;
          s1 = s\<lparr>next_queue := Suc q, queue_store := (queue_store s)(q := [])\<rparr>;
          s2 = (if campaign_id \<notin> fst ` set (event_queues s1)
                then s1\<lparr>event_queues := AList.update campaign_id [] (event_queues s1)\<rparr>
                else s1)
      in (q, s2\<lparr>event_queues := AList.update campaign_id
                  (the (map_of (event_queues s2) campaign_id) @ [q]) (event_queues s2)\<rparr>))"

text \<open>\<open>unsubscribe\<close>: \<open>list.remove\<close> deletes the first occurrence; \<open>ValueError\<close> is caught.\<close>

definition unsubscribe :: "string \<Rightarrow> nat \<Rightarrow> state_manager \<Rightarrow> state_manager" where
  "unsubscribe campaign_id q s =
     (case map_of (event_queues s) campaign_id of
        None \<Rightarrow> s
      | Some qs \<Rightarrow> s\<lparr>event_queues := AList.update campaign_id (remove1 q qs) (event_queues s)\<rparr>)"

section \<open>The workflow driver (\<open>app/api/workflow_runner.py\<close>)\<close>

definition stage_map :: "(string, string) dict" where
  "stage_map = [(''ingestion'', ''ingestion''), (''persona'', ''persona''),
     (''draft_email'', ''drafting''), (''draft_sms'', ''drafting''),
     (''draft_linkedin'', ''drafting''), (''draft_instagram'', ''drafting''),
     (''scoring'', ''scoring''), (''approval'', ''approval''),
     (''execution'', ''execution''), (''persistence'', ''persistence'')]"

text \<open>\<open>stage_map.get(node_name, node_name)\<close>\<close>

definition stage_of :: "string \<Rightarrow> string" where
  "stage_of node_name = (case map_of stage_map node_name of Some st \<Rightarrow> st | None \<Rightarrow> node_name)"

text \<open>Truth value of \<open>node_state.get("drafts")\<close>: the key is present with a non-empty list.\<close>

definition has_drafts :: "outreach_state \<Rightarrow> bool" where
  "has_drafts st = (case drafts st of None \<Rightarrow> False | Some ds \<Rightarrow> ds \<noteq> [])"

text \<open>
  What \<open>graph.astream(initial_state)\<close> delivers: the events it yields, each a dict from
  the name of a node that has finished to that node's state, and then either the end of the
  stream or the exception of a worker that failed (its text is \<open>str(exc)\<close>). An exception
  of \<open>build_graph().compile()\<close> is a stream that raises before its first event.
\<close>

type_synonym graph_event = "(string, outreach_state) dict"

record graph_stream =
  yielded :: "graph_event list"
  raised :: "string option"

text \<open>
  The body of the inner loop for one item of \<open>event.items()\<close>. The state is the manager
  and the local \<open>current_drafting\<close>; the flag of the result says that the function
  returned at the interrupt point.
\<close>

definition process_node ::
  "string \<Rightarrow> graph_event \<Rightarrow> string \<times> outreach_state \<Rightarrow> state_manager \<times> bool \<Rightarrow>
     (state_manager \<times> bool) \<times> bool" where
  "process_node campaign_id ev item sc =
     (let (node_name, node_state) = item;
          (s, current_drafting) = sc;
          stage = stage_of node_name;
          (s1, cd1) =
            (if stage = ''drafting'' then
               (if \<not> current_drafting then
                  (update_stage campaign_id ''drafting'' ''running''
                     ''Generating personalized drafts for all channels...'' s, True)
                else (s, current_drafting))
             else
               (update_stage campaign_id stage ''running'' (''Processing '' @ stage @ ''...'') s,
                False));
          s2 = update_state campaign_id node_state s1
      in if node_name = ''approval'' \<and> has_drafts node_state then
           ((update_stage campaign_id ''approval'' ''waiting''
               ''Waiting for user approval...'' s2, cd1), True)
         else if stage \<noteq> ''drafting'' \<or>
                 (stage = ''drafting'' \<and> ''draft_instagram'' \<in> fst ` set ev) then
           ((update_stage campaign_id stage ''completed'' (capitalize stage @ '' completed'') s2,
             cd1), False)
         else ((s2, cd1), False))"

text \<open>\<open>for node_name, node_state in event.items()\<close>\<close>

fun process_nodes ::
  "string \<Rightarrow> graph_event \<Rightarrow> (string \<times> outreach_state) list \<Rightarrow> state_manager \<times> bool \<Rightarrow>
     (state_manager \<times> bool) \<times> bool" where
  "process_nodes campaign_id ev [] sc = (sc, False)"
| "process_nodes campaign_id ev (item # items) sc =
     (case process_node campaign_id ev item sc of
        (sc1, True) \<Rightarrow> (sc1, True)
      | (sc1, False) \<Rightarrow> process_nodes campaign_id ev items sc1)"

text \<open>\<open>async for event in graph.astream(initial_state)\<close>, over the events yielded.\<close>

fun process_events ::
  "string \<Rightarrow> graph_event list \<Rightarrow> state_manager \<times> bool \<Rightarrow> (state_manager \<times> bool) \<times> bool" where
  "process_events campaign_id [] sc = (sc, False)"
| "process_events campaign_id (ev # evs) sc =
     (case process_nodes campaign_id ev ev sc of
        (sc1, True) \<Rightarrow> (sc1, True)
      | (sc1, False) \<Rightarrow> process_events campaign_id evs sc1)"

text \<open>
  An in-place write to the campaign dictionary that a local variable refers to
  (\<open>campaign["status"] = ...\<close>): the dictionary is the one stored in the registry.
\<close>

definition modify_campaign :: "string \<Rightarrow> (campaign \<Rightarrow> campaign) \<Rightarrow> state_manager \<Rightarrow> state_manager" where
  "modify_campaign campaign_id f s =
     (case map_of (campaigns s) campaign_id of
        None \<Rightarrow> s
      | Some c \<Rightarrow> s\<lparr>campaigns := AList.update campaign_id (f c) (campaigns s)\<rparr>)"

text \<open>The \<open># Final update\<close> block, reached when the stream ends.\<close>

definition final_update :: "string \<Rightarrow> state_manager \<Rightarrow> state_manager" where
  "final_update campaign_id s =
     (case get_campaign s campaign_id of
        None \<Rightarrow> s
      | Some c \<Rightarrow>
          if st_status (state c) = Some ''persisted'' then
            modify_campaign campaign_id (\<lambda>c. c\<lparr>status := ''completed''\<rparr>)
              (update_stage campaign_id ''persistence'' ''completed''
                 ''Campaign completed successfully'' s)
          else s)"

text \<open>
  The \<open>except Exception as exc\<close> block. Subscripting the \<open>None\<close> that
  \<open>get_campaign\<close> returns for an unknown id raises \<open>TypeError\<close> out of the handler.
\<close>

definition handle_failure :: "string \<Rightarrow> string \<Rightarrow> state_manager \<Rightarrow> py_error + state_manager" where
  "handle_failure campaign_id exc s =
     (case get_campaign s campaign_id of
        None \<Rightarrow> Inl TypeError
      | Some c \<Rightarrow>
          Inr (modify_campaign campaign_id (\<lambda>c. c\<lparr>status := ''failed'', error := Some exc\<rparr>)
                 (update_stage campaign_id (current_stage c) ''failed'' exc s)))"

text \<open>
  \<open>run_campaign_workflow\<close>, given what the graph's stream delivers. The driver's calls
  only create broadcast tasks; when the event loop runs them is modelled apart from the
  driver (\<open>run_task\<close> below), since a broadcast does not touch the registry.
\<close>

definition run_campaign_workflow ::
  "string \<Rightarrow> graph_stream \<Rightarrow> state_manager \<Rightarrow> py_error + state_manager" where
  "run_campaign_workflow campaign_id stream s =
     (case process_events campaign_id (yielded stream) (s, False) of
        ((s1, _), True) \<Rightarrow> Inr s1
      | ((s1, _), False) \<Rightarrow>
          (case raised stream of
             None \<Rightarrow> Inr (final_update campaign_id s1)
           | Some exc \<Rightarrow> handle_failure campaign_id exc s1))"

text \<open>
  The number of \<open>stage_update\<close> events with the given stage and status among the
  broadcasts created so far and not yet run.
\<close>

definition stage_updates :: "string \<Rightarrow> string \<Rightarrow> state_manager \<Rightarrow> nat" where
  "stage_updates stage stat s =
     length (filter (\<lambda>(k, e). ev_stage e = stage \<and> ev_status e = stat) (ready s))"

text \<open>\<open>campaign_id in self.campaigns\<close>\<close>

definition registered :: "state_manager \<Rightarrow> string \<Rightarrow> bool" where
  "registered s campaign_id = (get_campaign s campaign_id \<noteq> None)"

section \<open>The approval and regeneration loop (\<open>main.py\<close>)\<close>

text \<open>\<open>str.split()\<close> without arguments; \<open>cur\<close> is the word being read.\<close>

fun split_acc :: "string \<Rightarrow> string \<Rightarrow> string list" where
  "split_acc cur [] = (if cur = [] then [] else [cur])"
| "split_acc cur (c # cs) =
     (if is_space c then (if cur = [] then split_acc [] cs else cur # split_acc [] cs)
      else split_acc (cur @ [c]) cs)"

definition split_ws :: "string \<Rightarrow> string list" where
  "split_ws s = split_acc [] s"

text \<open>\<open>str.strip()\<close> without arguments.\<close>

definition strip :: "string \<Rightarrow> string" where
  "strip s = rev (dropWhile is_space (rev (dropWhile is_space s)))"

text \<open>
  The loop over \<open>raw.split()\<close> that fills \<open>approved\<close> and \<open>regen\<close>;
  \<open>token.split("=", 1)\<close> cuts at the first \<open>=\<close>.
\<close>

fun parse_tokens :: "string list \<Rightarrow> string list \<Rightarrow> string list \<Rightarrow> string list \<times> string list" where
  "parse_tokens [] approved_list regen = (approved_list, regen)"
| "parse_tokens (token # tokens) approved_list regen =
     (if CHR ''='' \<notin> set token then parse_tokens tokens approved_list regen
      else
        (let ch = lower (strip (takeWhile (\<lambda>c. c \<noteq> CHR ''='') token));
             choice = lower (strip (tl (dropWhile (\<lambda>c. c \<noteq> CHR ''='') token)))
         in if choice = ''approve'' then parse_tokens tokens (approved_list @ [ch]) regen
            else if choice = ''regen'' then parse_tokens tokens approved_list (regen @ [ch])
            else parse_tokens tokens approved_list regen))"

text \<open>From the line read by \<open>input()\<close> to the two lists.\<close>

definition parse_choices :: "string \<Rightarrow> string list \<times> string list" where
  "parse_choices line = parse_tokens (split_ws (strip line)) [] []"

text \<open>
  The workers imported from \<open>app.agents\<close>, which are not part of the orchestration: each
  takes the state and returns a new state or raises.
\<close>

record workers =
  scoring_node :: "outreach_state \<Rightarrow> py_error + outreach_state"
  generate_draft :: "string \<Rightarrow> outreach_state \<Rightarrow> py_error + draft"
  execution_node :: "outreach_state \<Rightarrow> py_error + outreach_state"
  persistence_node :: "outreach_state \<Rightarrow> py_error + outreach_state"

text \<open>
  What \<open>run_approval_loop\<close> prints besides the drafts and the prompt: the stage lines of
  \<open>print_stage\<close>, the warning at the regeneration limit and the lines of the execution
  results. A line is given by the values it is formatted from: the regen list and the
  round for a regeneration; the channel, the status and the entry for an execution result.
\<close>

datatype printed =
    Stage_Scoring
  | Stage_Human_Approval
  | Stage_Regenerating "string list" nat
  | Max_Regen_Warning
  | Stage_Execution
  | Result_Line string pyval pyval
  | Stage_Persistence

definition MAX_REGEN :: nat where
  "MAX_REGEN = 3"

text \<open>\<open>state.get("drafts", [])\<close>\<close>

definition draft_list :: "outreach_state \<Rightarrow> draft list" where
  "draft_list st = (case drafts st of None \<Rightarrow> [] | Some ds \<Rightarrow> ds)"

text \<open>The \<open># Mark approved\<close> block.\<close>

definition mark_approved :: "string list \<Rightarrow> outreach_state \<Rightarrow> outreach_state" where
  "mark_approved approved_list st =
     (let ds = draft_list st;
          updated_drafts = map (\<lambda>d. d\<lparr>approved := (channel d \<in> set approved_list)\<rparr>) ds
      in st\<lparr>drafts := Some updated_drafts, approved_channels := Some approved_list\<rparr>)"

text \<open>The loop that builds \<open>new_drafts\<close>; a raising \<open>_generate_draft\<close> ends it.\<close>

fun regenerate ::
  "(string \<Rightarrow> outreach_state \<Rightarrow> py_error + draft) \<Rightarrow> string list \<Rightarrow> outreach_state \<Rightarrow>
     draft list \<Rightarrow> py_error + draft list" where
  "regenerate gen regen st [] = Inr []"
| "regenerate gen regen st (d # ds) =
     (if channel d \<in> set regen then
        (case gen (channel d) st of
           Inl e \<Rightarrow> Inl e
         | Inr nd \<Rightarrow> (case regenerate gen regen st ds of
                        Inl e \<Rightarrow> Inl e
                      | Inr new_drafts \<Rightarrow> Inr (nd # new_drafts)))
      else
        (case regenerate gen regen st ds of
           Inl e \<Rightarrow> Inl e
         | Inr new_drafts \<Rightarrow> Inr (d # new_drafts)))"

text \<open>
  The \<open>while True\<close> loop of \<open>run_approval_loop\<close>, from the value of \<open>regen_round\<close>, the
  state, the lines still to be read from standard input and what has been printed so far.
  The result is the state at \<open>break\<close> or the exception that ended the loop (\<open>input()\<close>
  raises \<open>EOFError\<close> at the end of input), the unread lines and the printed stages.
\<close>

function approval_rounds ::
  "workers \<Rightarrow> nat \<Rightarrow> outreach_state \<Rightarrow> string list \<Rightarrow> printed list \<Rightarrow>
     (py_error + outreach_state) \<times> string list \<times> printed list" where
  "approval_rounds w regen_round st ins out =
     (case scoring_node w st of
        Inl e \<Rightarrow> (Inl e, ins, out @ [Stage_Scoring])
      | Inr st1 \<Rightarrow>
          (case ins of
             [] \<Rightarrow> (Inl EOFError, ins, out @ [Stage_Scoring, Stage_Human_Approval])
           | line # ins1 \<Rightarrow>
               (let approved_list = fst (parse_choices line);
                    regen = snd (parse_choices line);
                    st2 = mark_approved approved_list st1;
                    out2 = out @ [Stage_Scoring, Stage_Human_Approval]
                in if regen \<noteq> [] then
                     (if regen_round + 1 > MAX_REGEN then
                        (Inr st2, ins1, out2 @ [Max_Regen_Warning])
                      else
                        (case regenerate (generate_draft w) regen st2 (draft_list st2) of
                           Inl e \<Rightarrow>
                             (Inl e, ins1,
                              out2 @ [Stage_Regenerating regen (regen_round + 1)])
                         | Inr new_drafts \<Rightarrow>
                             approval_rounds w (regen_round + 1)
                               (st2\<lparr>drafts := Some new_drafts\<rparr>) ins1
                               (out2 @ [Stage_Regenerating regen (regen_round + 1)])))
                   else (Inr st2, ins1, out2))))"
  by pat_completeness auto
termination
  by (relation "measure (\<lambda>(w, regen_round, st, ins, out). MAX_REGEN + 1 - regen_round)") auto

declare approval_rounds.simps [simp del]

text \<open>
  The loop that prints the execution results. \<open>r.get\<close> needs a dict and \<open>ch.upper()\<close> a
  string: any other value raises \<open>AttributeError\<close>, after the lines of the entries before
  it have been printed.
\<close>

fun print_results :: "pyval list \<Rightarrow> py_error option \<times> printed list" where
  "print_results [] = (None, [])"
| "print_results (r # rs) =
     (case r of
        PDict kv \<Rightarrow>
          (let stat = dict_get_default kv ''status'' (PStr ''unknown'')
           in case dict_get_default kv ''channel'' (PStr ''?'') of
                PStr ch \<Rightarrow>
                  (case print_results rs of (e, ls) \<Rightarrow> (e, Result_Line ch stat r # ls))
              | _ \<Rightarrow> (Some AttributeError, []))
      | _ \<Rightarrow> (Some AttributeError, []))"

text \<open>
  What \<open>run_approval_loop\<close> does behind the loop, from the state at \<open>break\<close>: execution,
  the lines of \<open>state.get("execution_results", [])\<close> (the key is one of those kept in
  \<open>other\<close>; a value that cannot be iterated raises \<open>TypeError\<close>), then persistence.
\<close>

definition after_loop ::
  "workers \<Rightarrow> outreach_state \<Rightarrow> string list \<Rightarrow> printed list \<Rightarrow>
     (py_error + outreach_state) \<times> string list \<times> printed list" where
  "after_loop w st ins out =
     (case execution_node w st of
        Inl e \<Rightarrow> (Inl e, ins, out @ [Stage_Execution])
      | Inr st2 \<Rightarrow>
          (case iterate (dict_get_default (other st2) ''execution_results'' (PList [])) of
             Inl e \<Rightarrow> (Inl e, ins, out @ [Stage_Execution])
           | Inr results \<Rightarrow>
               (case print_results results of
                  (Some e, ls) \<Rightarrow> (Inl e, ins, out @ [Stage_Execution] @ ls)
                | (None, ls) \<Rightarrow>
                    (case persistence_node w st2 of
                       Inl e \<Rightarrow> (Inl e, ins, out @ [Stage_Execution] @ ls @ [Stage_Persistence])
                     | Inr st3 \<Rightarrow>
                         (Inr st3, ins, out @ [Stage_Execution] @ ls @ [Stage_Persistence])))))"

text \<open>
  \<open>run_approval_loop\<close>: the loop from \<open>regen_round = 0\<close>; an exception that ends the loop
  leaves the function, otherwise it goes on behind the loop with the state at \<open>break\<close>.
\<close>

definition run_approval_loop ::
  "workers \<Rightarrow> outreach_state \<Rightarrow> string list \<Rightarrow>
     (py_error + outreach_state) \<times> string list \<times> printed list" where
  "run_approval_loop w st ins =
     (case approval_rounds w 0 st ins [] of
        (Inl e, ins1, out) \<Rightarrow> (Inl e, ins1, out)
      | (Inr st1, ins1, out) \<Rightarrow> after_loop w st1 ins1 out)"

text \<open>
  One iteration that regenerates, for the line it reads: the state with which the loop
  goes back to scoring.
\<close>

definition regen_step :: "workers \<Rightarrow> string \<Rightarrow> outreach_state \<Rightarrow> py_error + outreach_state" where
  "regen_step w line st =
     (case scoring_node w st of
        Inl e \<Rightarrow> Inl e
      | Inr st1 \<Rightarrow>
          (let approved_list = fst (parse_choices line);
               regen = snd (parse_choices line);
               st2 = mark_approved approved_list st1
           in case regenerate (generate_draft w) regen st2 (draft_list st2) of
                Inl e \<Rightarrow> Inl e
              | Inr new_drafts \<Rightarrow> Inr (st2\<lparr>drafts := Some new_drafts\<rparr>)))"

text \<open>
  The values that the variable \<open>state\<close> takes in the loop, in the order of the
  assignments: after scoring, after marking and after regeneration, iteration by
  iteration, up to \<open>break\<close> or to the exception that ends the loop.
\<close>

function rounds_states ::
  "workers \<Rightarrow> nat \<Rightarrow> outreach_state \<Rightarrow> string list \<Rightarrow> outreach_state list" where
  "rounds_states w regen_round st ins =
     (case scoring_node w st of
        Inl e \<Rightarrow> []
      | Inr st1 \<Rightarrow>
          st1 #
          (case ins of
             [] \<Rightarrow> []
           | line # ins1 \<Rightarrow>
               (let approved_list = fst (parse_choices line);
                    regen = snd (parse_choices line);
                    st2 = mark_approved approved_list st1
                in st2 #
                   (if regen \<noteq> [] then
                      (if regen_round + 1 > MAX_REGEN then []
                       else
                         (case regenerate (generate_draft w) regen st2 (draft_list st2) of
                            Inl e \<Rightarrow> []
                          | Inr new_drafts \<Rightarrow>
                              st2\<lparr>drafts := Some new_drafts\<rparr> #
                              rounds_states w (regen_round + 1)
                                (st2\<lparr>drafts := Some new_drafts\<rparr>) ins1))
                    else []))))"
  by pat_completeness auto
termination
  by (relation "measure (\<lambda>(w, regen_round, st, ins). MAX_REGEN + 1 - regen_round)") auto

declare rounds_states.simps [simp del]






text \<open>Recognises the stage line of a regeneration round.\<close>

fun is_regenerating :: "printed \<Rightarrow> bool" where
  "is_regenerating (Stage_Regenerating _ _) = True"
| "is_regenerating _ = False"

text \<open>Sample data: two drafts, and workers that succeed.\<close>

definition demo_draft :: "string \<Rightarrow> draft" where
  "demo_draft ch = \<lparr>channel = ch, subject = None, body = ''hello '' @ ch, score = None,
     approved = False, sent = False\<rparr>"

definition demo_workers :: workers where
  "demo_workers = \<lparr>scoring_node = Inr,
     generate_draft = (\<lambda>ch st. Inr ((demo_draft ch)\<lparr>body := ''regenerated''\<rparr>)),
     execution_node = Inr, persistence_node = Inr\<rparr>"

definition demo_state :: outreach_state where
  "demo_state = empty_state\<lparr>drafts := Some [demo_draft ''email'', demo_draft ''sms'']\<rparr>"


section \<open>The event loop and event delivery\<close>

text \<open>
  One step of the \<open>asyncio\<close> event loop on the broadcast tasks: tasks start in the order
  in which \<open>create_task\<close> made them, and a broadcast never suspends (every \<open>put\<close> on an
  unbounded queue completes at once), so the oldest task runs to its end.
\<close>

definition run_task :: "state_manager \<Rightarrow> state_manager" where
  "run_task s =
     (case ready s of
        [] \<Rightarrow> s
      | (campaign_id, ev) # rest \<Rightarrow> broadcast_event campaign_id ev (s\<lparr>ready := rest\<rparr>))"

text \<open>Running the loop until no broadcast is pending.\<close>

definition drain :: "state_manager \<Rightarrow> state_manager" where
  "drain s = (run_task ^^ length (ready s)) s"

text \<open>
  What can happen to the manager while campaigns run: the calls of the driver and of the
  observers, interleaved in any way with steps of the event loop.
\<close>

datatype op =
    Update_Stage string string string string
  | Update_State string outreach_state
  | Subscribe string
  | Unsubscribe string nat
  | Run_Task

fun apply_op :: "op \<Rightarrow> state_manager \<Rightarrow> state_manager" where
  "apply_op (Update_Stage k stage stat msg) s = update_stage k stage stat msg s"
| "apply_op (Update_State k snap) s = update_state k snap s"
| "apply_op (Subscribe k) s = snd (subscribe k s)"
| "apply_op (Unsubscribe k q) s = unsubscribe k q s"
| "apply_op Run_Task s = run_task s"

text \<open>The handles registered for a campaign; none for an id without an entry.\<close>

definition queues_of :: "state_manager \<Rightarrow> string \<Rightarrow> nat list" where
  "queues_of s k = (case map_of (event_queues s) k of None \<Rightarrow> [] | Some qs \<Rightarrow> qs)"

text \<open>
  A handle as \<open>subscribe\<close> hands it out: an allocated queue that is registered once, under
  one campaign.
\<close>

definition subscribed :: "state_manager \<Rightarrow> string \<Rightarrow> nat \<Rightarrow> bool" where
  "subscribed s k q \<longleftrightarrow>
     q < next_queue s \<and> count_list (queues_of s k) q = 1 \<and>
     (\<forall>k'. k' \<noteq> k \<longrightarrow> q \<notin> set (queues_of s k'))"

text \<open>The events of campaign \<open>k\<close> among a list of broadcast tasks, in the list's order.\<close>

definition events_for :: "string \<Rightarrow> (string \<times> event) list \<Rightarrow> event list" where
  "events_for k tasks = map snd (filter (\<lambda>(k', e). k' = k) tasks)"

text \<open>
  The publish order: the events that the operations publish for campaign \<open>k\<close>, in the order
  of the publishing calls (a step of the event loop publishes nothing).
\<close>

fun published :: "string \<Rightarrow> op list \<Rightarrow> state_manager \<Rightarrow> event list" where
  "published k [] s = []"
| "published k (x # xs) s =
     (if x = Run_Task then []
      else events_for k (drop (length (ready s)) (ready (apply_op x s))))
     @ published k xs (apply_op x s)"

text \<open>Every registered handle is a queue that has been allocated.\<close>

definition handles_allocated :: "state_manager \<Rightarrow> bool" where
  "handles_allocated s \<longleftrightarrow> (\<forall>k. \<forall>q \<in> set (queues_of s k). q < next_queue s)"

section \<open>The sanitizer (\<open>app/utils/sanitizer.py\<close>)\<close>

text \<open>The character classes of the two patterns: \<open>[\d\s\-\(\)]\<close>\<close>

definition phone_char :: "char \<Rightarrow> bool" where
  "phone_char c = (is_digit c \<or> is_space c \<or> c = CHR ''-'' \<or> c = CHR ''('' \<or> c = CHR '')'')"

text \<open>\<open>[\w.\-+]\<close>\<close>

definition local_char :: "char \<Rightarrow> bool" where
  "local_char c = (is_word c \<or> c = CHR ''.'' \<or> c = CHR ''-'' \<or> c = CHR ''+'')"

text \<open>\<open>[\w.\-]\<close>\<close>

definition domain_char :: "char \<Rightarrow> bool" where
  "domain_char c = (is_word c \<or> c = CHR ''.'' \<or> c = CHR ''-'')"

text \<open>
  What \<open>_PHONE_RE\<close> matches at the start of a string, as the length of the match. After
  the first digit the greedy \<open>[\d\s\-\(\)]{7,}\<close> takes the whole run of class characters and
  gives characters back until a digit follows: what is matched of the run ends at its last
  digit, and must have at least seven characters before that digit.
\<close>

definition phone_core :: "string \<Rightarrow> nat option" where
  "phone_core s =
     (case s of
        [] \<Rightarrow> None
      | d # rest \<Rightarrow>
          if \<not> is_digit d then None
          else
            (let run = takeWhile phone_char rest;
                 kept = rev (dropWhile (\<lambda>c. \<not> is_digit c) (rev run))
             in if 8 \<le> length kept then Some (1 + length kept) else None))"

text \<open>\<open>\+?\<close> is greedy: with the sign first, then without.\<close>

definition phone_match :: "string \<Rightarrow> nat option" where
  "phone_match s =
     (case s of
        [] \<Rightarrow> None
      | c # rest \<Rightarrow>
          if c = CHR ''+'' then
            (case phone_core rest of Some n \<Rightarrow> Some (Suc n) | None \<Rightarrow> phone_core s)
          else phone_core s)"

text \<open>
  For the part of a run of domain characters behind its first character: the length up to
  the end of what \<open>\.\w{2,}\<close> matches at the last dot that is followed by at least two word
  characters. (The greedy domain gives characters back from the end of the run, so the last
  such dot is the one found; the greedy \<open>\w{2,}\<close> takes all word characters behind it.)
\<close>

fun last_dot :: "string \<Rightarrow> nat option" where
  "last_dot [] = None"
| "last_dot (c # cs) =
     (case last_dot cs of
        Some n \<Rightarrow> Some (Suc n)
      | None \<Rightarrow>
          if c = CHR ''.'' \<and> 2 \<le> length (takeWhile is_word cs)
          then Some (Suc (length (takeWhile is_word cs)))
          else None)"

text \<open>
  What \<open>_EMAIL_RE\<close> matches at the start of a string. The local part is the whole run of
  its class (the \<open>@\<close> is not in the class); the domain is taken from the run of its class
  behind the \<open>@\<close>, and has at least one character before the dot.
\<close>

definition email_match :: "string \<Rightarrow> nat option" where
  "email_match s =
     (let local_part = takeWhile local_char s;
          after = drop (length local_part) s
      in if local_part = [] then None
         else
           (case after of
              [] \<Rightarrow> None
            | a # rest \<Rightarrow>
                if a \<noteq> CHR ''@'' then None
                else
                  (case takeWhile domain_char rest of
                     [] \<Rightarrow> None
                   | r # run \<Rightarrow>
                       (case last_dot run of
                          None \<Rightarrow> None
                        | Some n \<Rightarrow> Some (length local_part + 1 + 1 + n)))))"

text \<open>
  \<open>pattern.sub(repl, text)\<close> for a pattern that matches no empty string: scan from the
  left; where the pattern matches, write the replacement and go on behind the match;
  elsewhere copy the character.
\<close>

fun re_sub :: "(string \<Rightarrow> nat option) \<Rightarrow> string \<Rightarrow> string \<Rightarrow> string" where
  "re_sub m repl [] = []"
| "re_sub m repl (c # cs) =
     (case m (c # cs) of
        None \<Rightarrow> c # re_sub m repl cs
      | Some n \<Rightarrow> repl @ re_sub m repl (drop (n - 1) cs))"

definition scrub_text :: "string \<Rightarrow> string" where
  "scrub_text text =
     re_sub email_match ''[REDACTED-EMAIL]'' (re_sub phone_match ''[REDACTED-PHONE]'' text)"

text \<open>
  The strings the two patterns match, written from the patterns themselves:
  \<open>\+?\d[\d\s\-\(\)]{7,}\d\<close> and \<open>[\w.\-+]+@[\w.\-]+\.\w{2,}\<close>.
\<close>

definition phone_lang :: "string set" where
  "phone_lang = {w. \<exists>p d1 mid d2. w = p @ [d1] @ mid @ [d2] \<and> (p = [] \<or> p = ''+'') \<and>
     is_digit d1 \<and> is_digit d2 \<and> 7 \<le> length mid \<and> (\<forall>c \<in> set mid. phone_char c)}"

definition email_lang :: "string set" where
  "email_lang = {w. \<exists>l d t. w = l @ ''@'' @ d @ ''.'' @ t \<and>
     l \<noteq> [] \<and> (\<forall>c \<in> set l. local_char c) \<and>
     d \<noteq> [] \<and> (\<forall>c \<in> set d. domain_char c) \<and>
     2 \<le> length t \<and> (\<forall>c \<in> set t. is_word c)}"

text \<open>No part of the text is matched by either pattern.\<close>

definition pii_free :: "string \<Rightarrow> bool" where
  "pii_free text \<longleftrightarrow> (\<forall>w. sublist w text \<longrightarrow> w \<notin> phone_lang \<and> w \<notin> email_lang)"

subsection \<open>\<open>sanitize_for_storage\<close>\<close>

text \<open>
  The payload is a \<open>dict[str, Any]\<close>. The key lists of dictionaries are taken to be
  distinct, as those of a Python \<open>dict\<close> are.
\<close>

text \<open>
  \<open>str(val)\<close>: a string is itself; what the builtin makes of any other value is the
  parameter \<open>str_of\<close>.
\<close>

definition py_str :: "(pyval \<Rightarrow> string) \<Rightarrow> pyval \<Rightarrow> string" where
  "py_str str_of v = (case v of PStr s \<Rightarrow> s | _ \<Rightarrow> str_of v)"

text \<open>The loop over the scalar fields.\<close>

fun scrub_scalars ::
  "(pyval \<Rightarrow> string) \<Rightarrow> (string, pyval) dict \<Rightarrow> string list \<Rightarrow> (string, pyval) dict \<Rightarrow>
     (string, pyval) dict" where
  "scrub_scalars str_of payload [] safe = safe"
| "scrub_scalars str_of payload (key # keys) safe =
     (let val = dict_get payload key
      in scrub_scalars str_of payload keys
           (if truthy val then AList.update key (PStr (scrub_text (py_str str_of val))) safe
            else safe))"

definition allowed_link_keys :: "string list" where
  "allowed_link_keys = [''linkedin'', ''company_site'', ''twitter'', ''github'',
     ''portfolio'', ''blog'', ''website'']"

text \<open>
  \<open>payload.get("links") or {}\<close> and the dict comprehension over its \<open>items()\<close>; a value
  that is true and not a dict has no \<open>items\<close>.
\<close>

definition sanitize_links :: "pyval \<Rightarrow> py_error + (string, pyval) dict" where
  "sanitize_links v =
     (let raw_links = (if truthy v then v else PDict [])
      in case raw_links of
           PDict items \<Rightarrow>
             Inr (filter (\<lambda>(k, v). lower k \<in> set allowed_link_keys \<and> is_str v) items)
         | _ \<Rightarrow> Inl AttributeError)"

text \<open>
  The dict built for one draft. \<open>d.get\<close> needs a dict; \<open>_scrub_text\<close> needs a string
  (\<open>re\<close> raises \<open>TypeError\<close> on anything else).
\<close>

definition sanitize_draft :: "pyval \<Rightarrow> py_error + pyval" where
  "sanitize_draft d =
     (case d of
        PDict kv \<Rightarrow>
          (case (if truthy (dict_get kv ''subject'') then
                   (case dict_get kv ''subject'' of
                      PStr s \<Rightarrow> Inr (PStr (scrub_text s))
                    | _ \<Rightarrow> Inl TypeError)
                 else Inr PNone) of
             Inl e \<Rightarrow> Inl e
           | Inr subj \<Rightarrow>
               (case dict_get_default kv ''body'' (PStr '''') of
                  PStr b \<Rightarrow>
                    Inr (PDict
                      [(''channel'', dict_get_default kv ''channel'' (PStr ''unknown'')),
                       (''subject'', subj),
                       (''body'', PStr (scrub_text b)),
                       (''score'', dict_get kv ''score''),
                       (''approved'', dict_get_default kv ''approved'' (PBool False)),
                       (''sent'', dict_get_default kv ''sent'' (PBool False))])
                | _ \<Rightarrow> Inl TypeError))
      | _ \<Rightarrow> Inl AttributeError)"

text \<open>The loop that fills \<open>safe_drafts\<close>.\<close>

fun sanitize_drafts :: "pyval list \<Rightarrow> py_error + pyval list" where
  "sanitize_drafts [] = Inr []"
| "sanitize_drafts (d # ds) =
     (case sanitize_draft d of
        Inl e \<Rightarrow> Inl e
      | Inr sd \<Rightarrow>
          (case sanitize_drafts ds of
             Inl e \<Rightarrow> Inl e
           | Inr safe_drafts \<Rightarrow> Inr (sd # safe_drafts)))"

text \<open>\<open>payload.get("drafts") or []\<close>\<close>

definition raw_drafts :: "(string, pyval) dict \<Rightarrow> pyval" where
  "raw_drafts payload =
     (if truthy (dict_get payload ''drafts'') then dict_get payload ''drafts'' else PList [])"

definition sanitize_for_storage ::
  "(pyval \<Rightarrow> string) \<Rightarrow> (string, pyval) dict \<Rightarrow> py_error + (string, pyval) dict" where
  "sanitize_for_storage str_of payload =
     (let safe1 = scrub_scalars str_of payload [''company'', ''role'', ''industry''] []
      in case sanitize_links (dict_get payload ''links'') of
           Inl e \<Rightarrow> Inl e
         | Inr links \<Rightarrow>
             (let safe2 = AList.update ''links'' (PDict links) safe1;
                  safe3 = (if truthy (dict_get payload ''tone_json'')
                           then AList.update ''tone_json'' (dict_get payload ''tone_json'') safe2
                           else safe2)
              in case (if truthy (dict_get payload ''interests'') then
                         (case iterate (dict_get payload ''interests'') of
                            Inl e \<Rightarrow> Inl e
                          | Inr xs \<Rightarrow>
                              Inr (AList.update ''interests''
                                     (PList (map (\<lambda>i. PStr (py_str str_of i)) xs)) safe3))
                       else Inr safe3) of
                   Inl e \<Rightarrow> Inl e
                 | Inr safe4 \<Rightarrow>
                     (let safe5 = (if truthy (dict_get payload ''recent_activity'')
                                   then AList.update ''recent_activity''
                                          (PStr (scrub_text (py_str str_of
                                             (dict_get payload ''recent_activity'')))) safe4
                                   else safe4);
                          safe6 = (if truthy (dict_get payload ''communication_style'')
                                   then AList.update ''communication_style''
                                          (PStr (scrub_text (py_str str_of
                                             (dict_get payload ''communication_style'')))) safe5
                                   else safe5)
                      in case iterate (raw_drafts payload) of
                           Inl e \<Rightarrow> Inl e
                         | Inr ds \<Rightarrow>
                             (case sanitize_drafts ds of
                                Inl e \<Rightarrow> Inl e
                              | Inr safe_drafts \<Rightarrow>
                                  Inr (AList.update ''drafts'' (PList safe_drafts) safe6)))))"

text \<open>The keys the sanitizer may write.\<close>

definition safe_keys :: "string list" where
  "safe_keys = [''company'', ''role'', ''industry'', ''links'', ''tone_json'', ''interests'',
     ''recent_activity'', ''communication_style'', ''drafts'']"

text \<open>
  A payload of the shape the sanitizer is written for: \<open>links\<close> is a dict, \<open>interests\<close>
  can be iterated, \<open>drafts\<close> is a list of dicts whose \<open>subject\<close> and \<open>body\<close> are strings
  (each of the three may also be missing or empty, and a subject may be \<open>None\<close>).
\<close>

definition draft_ok :: "pyval \<Rightarrow> bool" where
  "draft_ok d =
     (case d of
        PDict kv \<Rightarrow>
          (if truthy (dict_get kv ''subject'') then is_str (dict_get kv ''subject'') else True) \<and>
          is_str (dict_get_default kv ''body'' (PStr ''''))
      | _ \<Rightarrow> False)"

definition well_shaped :: "(string, pyval) dict \<Rightarrow> bool" where
  "well_shaped payload \<longleftrightarrow>
     (case dict_get payload ''links'' of
        PDict kvs \<Rightarrow> True | v \<Rightarrow> \<not> truthy v) \<and>
     (case dict_get payload ''interests'' of
        PList xs \<Rightarrow> True | PStr s \<Rightarrow> True | PDict kvs \<Rightarrow> True | v \<Rightarrow> \<not> truthy v) \<and>
     (case dict_get payload ''drafts'' of
        PList ds \<Rightarrow> list_all draft_ok ds | v \<Rightarrow> \<not> truthy v)"

text \<open>
  The sample payload of the examples. The second draft's body has an address with the
  letter \<open>U+00E9\<close> and a phone number whose groups are separated by no-break spaces.
\<close>

definition demo_payload :: "(string, pyval) dict" where
  "demo_payload =
     [(''company'', PStr ''Acme, call 555 123 4567 8''),
      (''target_identifier'', PStr ''jane@acme.example''),
      (''links'', PDict [(''LinkedIn'', PStr ''https://linkedin.example/in/x''),
                         (''phone'', PStr ''555''), (''github'', PInt 3)]),
      (''drafts'', PList
         [PDict [(''channel'', PStr ''email''), (''subject'', PStr ''Hi jane@acme.example''),
                 (''body'', PStr ''Reach me at +1 (555) 123-4567.''), (''score'', PFloat 8)],
          PDict [(''channel'', PStr ''sms''),
                 (''body'', PStr (''Mail jos'' @ [CHR 0xE9] @ ''@acme.example or call 555'' @
                    [CHR 0xA0] @ ''123'' @ [CHR 0xA0] @ ''4567'')),
                 (''approved'', PBool True)]])]"

text \<open>The entries of a value that is a dict.\<close>

definition fields :: "pyval \<Rightarrow> (string, pyval) dict" where
  "fields v = (case v of PDict kv \<Rightarrow> kv | _ \<Rightarrow> [])"

section \<open>Verified properties\<close>

subsection \<open>The campaign registry\<close>

lemma map_of_update_same: "map_of (AList.update k v al) k = Some v"
  by (simp add: update_conv')

lemma map_of_update_other: "k' \<noteq> k \<Longrightarrow> map_of (AList.update k v al) k' = map_of al k'"
  by (simp add: update_conv')






lemma update_keys_present:
  "map_of al k = Some c \<Longrightarrow> map fst (AList.update k v al) = map fst al"
  by (induction al) (auto split: if_splits)

lemma update_stage_absent:
  "get_campaign s k = None \<Longrightarrow> update_stage k stage stat msg s = s"
  by (simp add: update_stage_def get_campaign_def)

lemma update_stage_present:
  "get_campaign s k = Some c \<Longrightarrow>
   update_stage k stage stat msg s =
     s\<lparr>clock := Suc (Suc (clock s)),
       campaigns := AList.update k
         (c\<lparr>stages := AList.update stage
                  \<lparr>se_status = stat, se_message = msg, se_timestamp = Some (clock s)\<rparr> (stages c),
            current_stage := stage\<rparr>) (campaigns s),
       ready := ready s @ [(k, \<lparr>ev_type = ''stage_update'', ev_stage = stage, ev_status = stat,
                        ev_message = msg, ev_timestamp = Suc (clock s)\<rparr>)]\<rparr>"
  by (simp add: update_stage_def get_campaign_def utcnow_def Let_def)

text \<open>
  C7. For a campaign id that is not in the registry, \<open>update_stage\<close> returns the manager
  exactly as it was: no record, stage table or current stage changes and no broadcast task
  is created. For an id that is present, the named stage entry is overwritten with the new
  status and message, every other stage entry and every other campaign is as before,
  \<open>current_stage\<close> is the named stage, and exactly one \<open>stage_update\<close> event for the
  campaign is added to the pending broadcasts; the subscriber lists and the queues are not
  touched by the call itself.
\<close>

theorem update_stage_registry:
  "(get_campaign s k = None \<longrightarrow> update_stage k stage stat msg s = s) \<and>
   (\<forall>c. get_campaign s k = Some c \<longrightarrow>
      get_campaign (update_stage k stage stat msg s) k =
        Some (c\<lparr>stages := AList.update stage
                  \<lparr>se_status = stat, se_message = msg, se_timestamp = Some (clock s)\<rparr> (stages c),
                current_stage := stage\<rparr>) \<and>
      (\<forall>c'. get_campaign (update_stage k stage stat msg s) k = Some c' \<longrightarrow>
         map_of (stages c') stage =
           Some \<lparr>se_status = stat, se_message = msg, se_timestamp = Some (clock s)\<rparr> \<and>
         (\<forall>st. st \<noteq> stage \<longrightarrow> map_of (stages c') st = map_of (stages c) st) \<and>
         current_stage c' = stage) \<and>
      (\<forall>k'. k' \<noteq> k \<longrightarrow>
         get_campaign (update_stage k stage stat msg s) k' = get_campaign s k') \<and>
      map fst (campaigns (update_stage k stage stat msg s)) = map fst (campaigns s) \<and>
      ready (update_stage k stage stat msg s) =
        ready s @ [(k, \<lparr>ev_type = ''stage_update'', ev_stage = stage, ev_status = stat,
                        ev_message = msg, ev_timestamp = Suc (clock s)\<rparr>)] \<and>
      event_queues (update_stage k stage stat msg s) = event_queues s \<and>
      queue_store (update_stage k stage stat msg s) = queue_store s)"
proof (intro conjI allI impI)
  assume "get_campaign s k = None"
  then show "update_stage k stage stat msg s = s" by (rule update_stage_absent)
next
  fix c assume c: "get_campaign s k = Some c"
  note eq = update_stage_present [OF c, of stage stat msg]
  show "get_campaign (update_stage k stage stat msg s) k =
        Some (c\<lparr>stages := AList.update stage
                  \<lparr>se_status = stat, se_message = msg, se_timestamp = Some (clock s)\<rparr> (stages c),
                current_stage := stage\<rparr>)"
    by (simp add: eq get_campaign_def map_of_update_same)
  then show "map_of (stages c') stage =
           Some \<lparr>se_status = stat, se_message = msg, se_timestamp = Some (clock s)\<rparr>"
    if "get_campaign (update_stage k stage stat msg s) k = Some c'" for c'
    using that by (auto simp add: map_of_update_same)
  show "map_of (stages c') st = map_of (stages c) st"
    if "get_campaign (update_stage k stage stat msg s) k = Some c'" "st \<noteq> stage" for c' st
    using that by (auto simp add: eq get_campaign_def map_of_update_same map_of_update_other)
  show "current_stage c' = stage"
    if "get_campaign (update_stage k stage stat msg s) k = Some c'" for c'
    using that by (auto simp add: eq get_campaign_def map_of_update_same)
  show "get_campaign (update_stage k stage stat msg s) k' = get_campaign s k'"
    if "k' \<noteq> k" for k'
    using that by (simp add: eq get_campaign_def map_of_update_other)
  show "map fst (campaigns (update_stage k stage stat msg s)) = map fst (campaigns s)"
    using c by (simp add: eq get_campaign_def update_keys_present)
  show "ready (update_stage k stage stat msg s) =
        ready s @ [(k, \<lparr>ev_type = ''stage_update'', ev_stage = stage, ev_status = stat,
                        ev_message = msg, ev_timestamp = Suc (clock s)\<rparr>)]"
    by (simp add: eq)
  show "event_queues (update_stage k stage stat msg s) = event_queues s"
    by (simp add: eq)
  show "queue_store (update_stage k stage stat msg s) = queue_store s"
    by (simp add: eq)
qed


theorem update_stage_registry_witness:
  "get_campaign init_manager ''nope'' = None \<and>
   update_stage ''nope'' ''persona'' ''running'' ''Processing persona...'' init_manager
     = init_manager \<and>
   (\<exists>c. get_campaign (snd (create_campaign ''c1'' [] init_manager)) ''c1'' = Some c \<and>
     map_option current_stage
       (get_campaign (update_stage ''c1'' ''persona'' ''running'' ''Processing persona...''
          (snd (create_campaign ''c1'' [] init_manager))) ''c1'') = Some ''persona'' \<and>
     length (ready (update_stage ''c1'' ''persona'' ''running'' ''Processing persona...''
          (snd (create_campaign ''c1'' [] init_manager)))) = 1)"
proof -
  define s1 where "s1 = snd (create_campaign ''c1'' [] init_manager)"
  have absent: "get_campaign init_manager ''nope'' = None"
    by (simp add: get_campaign_def init_manager_def)
  obtain c where c: "get_campaign s1 ''c1'' = Some c"
    by (simp add: s1_def create_campaign_def get_campaign_def utcnow_def Let_def
        map_of_update_same)
  have r0: "ready s1 = []"
    by (simp add: s1_def create_campaign_def utcnow_def Let_def init_manager_def)
  have a: "update_stage ''nope'' ''persona'' ''running'' ''Processing persona...'' init_manager
     = init_manager"
    using update_stage_registry [of init_manager "''nope''" "''persona''" "''running''"
        "''Processing persona...''"] absent by blast
  note p = update_stage_registry [of s1 "''c1''" "''persona''" "''running''"
        "''Processing persona...''", THEN conjunct2, rule_format, OF c]
  have b: "map_option current_stage
       (get_campaign (update_stage ''c1'' ''persona'' ''running'' ''Processing persona...'' s1)
          ''c1'') = Some ''persona''"
    using p by simp
  have d: "length (ready (update_stage ''c1'' ''persona'' ''running'' ''Processing persona...''
      s1)) = 1"
    using p r0 by simp
  from absent a b c d show ?thesis
    unfolding s1_def by blast
qed

text \<open>
  C3, as stated, fails on the code: a snapshot without a status field does not leave the
  campaign's status alone. A campaign just created has status \<open>created\<close>; after
  \<open>update_state\<close> with the empty snapshot its status is \<open>running\<close>.
\<close>

theorem update_state_status_counterexample:
  "st_status empty_state = None \<and>
   map_option status (get_campaign (snd (create_campaign ''c1'' [] init_manager)) ''c1'')
     = Some ''created'' \<and>
   map_option status
     (get_campaign (update_state ''c1'' empty_state
        (snd (create_campaign ''c1'' [] init_manager))) ''c1'') = Some ''running''"
  by (simp add: update_state_def create_campaign_def get_campaign_def utcnow_def Let_def
      empty_state_def init_manager_def)

text \<open>
  C3, amended. For a campaign id in the registry, \<open>update_state\<close> replaces the stored
  snapshot wholesale and sets the campaign's status to the snapshot's status field when
  that is present, and to \<open>running\<close> when the snapshot has none. Nothing else of the
  record, no other campaign and nothing else of the manager changes.
\<close>

theorem update_state_replaces:
  "get_campaign s k = Some c \<Longrightarrow>
   get_campaign (update_state k snap s) k =
     Some (c\<lparr>state := snap,
             status := (case st_status snap of Some v \<Rightarrow> v | None \<Rightarrow> ''running'')\<rparr>) \<and>
   (\<forall>k'. k' \<noteq> k \<longrightarrow> get_campaign (update_state k snap s) k' = get_campaign s k') \<and>
   update_state k snap s = s\<lparr>campaigns := campaigns (update_state k snap s)\<rparr>"
  by (simp add: update_state_def get_campaign_def Let_def map_of_update_same
      map_of_update_other)

theorem update_state_replaces_witness:
  "(\<exists>c. get_campaign (snd (create_campaign ''c1'' [] init_manager)) ''c1'' = Some c \<and>
     get_campaign (update_state ''c1'' (empty_state\<lparr>st_status := Some ''persisted''\<rparr>)
        (snd (create_campaign ''c1'' [] init_manager))) ''c1''
       = Some (c\<lparr>state := empty_state\<lparr>st_status := Some ''persisted''\<rparr>,
                 status := ''persisted''\<rparr>))"
proof -
  define s1 where "s1 = snd (create_campaign ''c1'' [] init_manager)"
  obtain c where c: "get_campaign s1 ''c1'' = Some c"
    by (simp add: s1_def create_campaign_def get_campaign_def utcnow_def Let_def
        map_of_update_same)
  from update_state_replaces [OF c, of "empty_state\<lparr>st_status := Some ''persisted''\<rparr>"] c
  show ?thesis unfolding s1_def by simp
qed

subsection \<open>The workflow driver\<close>

lemma present_update_stage:
  "registered s k \<Longrightarrow> registered (update_stage k' a b m s) k"
  by (cases "k' = k")
    (auto simp add: registered_def update_stage_def get_campaign_def utcnow_def Let_def map_of_update_same
      map_of_update_other split: option.splits)

lemma present_update_state:
  "registered s k \<Longrightarrow> registered (update_state k' snap s) k"
  by (cases "k' = k")
    (auto simp add: registered_def update_state_def get_campaign_def Let_def map_of_update_same
      map_of_update_other split: option.splits)

lemma present_modify_campaign:
  "registered s k \<Longrightarrow> registered (modify_campaign k' f s) k"
  by (cases "k' = k")
    (auto simp add: registered_def modify_campaign_def get_campaign_def map_of_update_same
      map_of_update_other split: option.splits)

lemma stage_updates_update_stage:
  "registered s k \<Longrightarrow>
   stage_updates st stat (update_stage k a b m s) =
     stage_updates st stat s + (if a = st \<and> b = stat then 1 else 0)"
  by (auto simp add: registered_def update_stage_present stage_updates_def)

lemma stage_updates_update_state:
  "stage_updates st stat (update_state k snap s) = stage_updates st stat s"
  by (simp add: update_state_def stage_updates_def Let_def split: option.splits)

lemma stage_updates_modify_campaign:
  "stage_updates st stat (modify_campaign k f s) = stage_updates st stat s"
  by (simp add: modify_campaign_def stage_updates_def split: option.splits)

lemma stage_of_approval: "stage_of ''approval'' = ''approval''"
  by (simp add: stage_of_def stage_map_def)

lemma process_node_drafting:
  assumes p: "registered s k" and d: "stage_of n = ''drafting''"
  shows "\<exists>s'. process_node k ev (n, nst) (s, cd) = ((s', True), False) \<and>
      registered s' k \<and>
      stage_updates ''drafting'' ''running'' s' =
        stage_updates ''drafting'' ''running'' s + (if cd then 0 else 1) \<and>
      stage_updates ''drafting'' ''completed'' s' =
        stage_updates ''drafting'' ''completed'' s +
          (if ''draft_instagram'' \<in> fst ` set ev then 1 else 0)"
proof -
  have na: "n \<noteq> ''approval''"
    using d stage_of_approval by auto
  define s1 where "s1 = (if cd then s else update_stage k ''drafting'' ''running''
     ''Generating personalized drafts for all channels...'' s)"
  define s2 where "s2 = update_state k nst s1"
  have p1: "registered s1 k"
    using p by (simp add: s1_def present_update_stage)
  have p2: "registered s2 k"
    using p1 by (simp add: s2_def present_update_state)
  have r1: "stage_updates ''drafting'' ''running'' s1 =
      stage_updates ''drafting'' ''running'' s + (if cd then 0 else 1)"
    using p by (simp add: s1_def stage_updates_update_stage)
  have c1: "stage_updates ''drafting'' ''completed'' s1 = stage_updates ''drafting'' ''completed'' s"
    using p by (simp add: s1_def stage_updates_update_stage)
  have r2: "stage_updates ''drafting'' ''running'' s2 =
      stage_updates ''drafting'' ''running'' s + (if cd then 0 else 1)"
    using r1 by (simp add: s2_def stage_updates_update_state)
  have c2: "stage_updates ''drafting'' ''completed'' s2 = stage_updates ''drafting'' ''completed'' s"
    using c1 by (simp add: s2_def stage_updates_update_state)
  have eq: "process_node k ev (n, nst) (s, cd) =
      ((if ''draft_instagram'' \<in> fst ` set ev
        then update_stage k ''drafting'' ''completed'' (capitalize ''drafting'' @ '' completed'') s2
        else s2, True), False)"
    using na d by (simp add: process_node_def Let_def s1_def s2_def)
  show ?thesis
    using p2 r2 c2
    by (simp add: eq present_update_stage stage_updates_update_stage)
qed

lemma process_node_other:
  assumes p: "registered s k" and d: "stage_of n \<noteq> ''drafting''"
  shows "\<exists>s' cd' paused. process_node k ev (n, nst) (s, cd) = ((s', cd'), paused) \<and>
      registered s' k \<and>
      (paused \<longrightarrow> n = ''approval'') \<and>
      (\<forall>stat. stage_updates ''drafting'' stat s' = stage_updates ''drafting'' stat s)"
proof -
  define s1 where "s1 = update_stage k (stage_of n) ''running''
     (''Processing '' @ stage_of n @ ''...'') s"
  define s2 where "s2 = update_state k nst s1"
  have p1: "registered s1 k"
    using p by (simp add: s1_def present_update_stage)
  have p2: "registered s2 k"
    using p1 by (simp add: s2_def present_update_state)
  have c2: "stage_updates ''drafting'' stat s2 = stage_updates ''drafting'' stat s" for stat
    using p d by (auto simp add: s1_def s2_def stage_updates_update_state stage_updates_update_stage)
  have eq: "process_node k ev (n, nst) (s, cd) =
      (if n = ''approval'' \<and> has_drafts nst
       then ((update_stage k ''approval'' ''waiting'' ''Waiting for user approval...'' s2, False),
             True)
       else ((update_stage k (stage_of n) ''completed'' (capitalize (stage_of n) @ '' completed'')
                s2, False), False))"
    using d by (simp add: process_node_def Let_def s1_def s2_def)
  show ?thesis
    using p2 c2 d
    by (auto simp add: eq present_update_stage stage_updates_update_stage)
qed


lemma process_nodes_drafting:
  assumes "registered s k" and "\<forall>item \<in> set items. stage_of (fst item) = ''drafting''"
  shows "\<exists>s'. process_nodes k ev items (s, cd) = ((s', cd \<or> items \<noteq> []), False) \<and>
      registered s' k \<and>
      stage_updates ''drafting'' ''running'' s' =
        stage_updates ''drafting'' ''running'' s + (if cd \<or> items = [] then 0 else 1) \<and>
      stage_updates ''drafting'' ''completed'' s' =
        stage_updates ''drafting'' ''completed'' s +
          (if ''draft_instagram'' \<in> fst ` set ev then length items else 0)"
  using assms
proof (induction items arbitrary: s cd)
  case Nil
  then show ?case by simp
next
  case (Cons item items)
  obtain n nst where item: "item = (n, nst)" by (cases item)
  from Cons.prems item have d: "stage_of n = ''drafting''" by simp
  from process_node_drafting [OF Cons.prems(1) d, of ev nst cd]
  obtain s1 where s1: "process_node k ev (n, nst) (s, cd) = ((s1, True), False)"
    "registered s1 k"
    "stage_updates ''drafting'' ''running'' s1 =
        stage_updates ''drafting'' ''running'' s + (if cd then 0 else 1)"
    "stage_updates ''drafting'' ''completed'' s1 =
        stage_updates ''drafting'' ''completed'' s +
          (if ''draft_instagram'' \<in> fst ` set ev then 1 else 0)"
    by blast
  from Cons.prems have rest: "\<forall>item \<in> set items. stage_of (fst item) = ''drafting''" by simp
  from Cons.IH [OF s1(2) rest, of True]
  obtain s2 where s2: "process_nodes k ev items (s1, True) = ((s2, True), False)"
    "registered s2 k"
    "stage_updates ''drafting'' ''running'' s2 = stage_updates ''drafting'' ''running'' s1"
    "stage_updates ''drafting'' ''completed'' s2 =
        stage_updates ''drafting'' ''completed'' s1 +
          (if ''draft_instagram'' \<in> fst ` set ev then length items else 0)"
    by auto
  show ?case
    using s1 s2 by (simp add: item)
qed

lemma process_nodes_other:
  assumes "registered s k" and "\<forall>item \<in> set items. stage_of (fst item) \<noteq> ''drafting''"
  shows "\<exists>s' cd' paused. process_nodes k ev items (s, cd) = ((s', cd'), paused) \<and>
      registered s' k \<and> (paused \<longrightarrow> ''approval'' \<in> fst ` set items) \<and> (cd' \<longrightarrow> cd) \<and>
      (\<forall>stat. stage_updates ''drafting'' stat s' = stage_updates ''drafting'' stat s)"
  using assms
proof (induction items arbitrary: s cd)
  case Nil
  then show ?case by (intro exI [of _ s] exI [of _ cd] exI [of _ False]) simp
next
  case (Cons item items)
  obtain n nst where item: "item = (n, nst)" by (cases item)
  from Cons.prems item have d: "stage_of n \<noteq> ''drafting''" by simp
  from process_node_other [OF Cons.prems(1) d, of ev nst cd]
  obtain s1 cd1 p1 where s1: "process_node k ev (n, nst) (s, cd) = ((s1, cd1), p1)"
    "registered s1 k" "p1 \<longrightarrow> n = ''approval''"
    "\<forall>stat. stage_updates ''drafting'' stat s1 = stage_updates ''drafting'' stat s"
    by blast
  have cd1: "\<not> cd1"
    using s1(1) d by (auto simp add: process_node_def Let_def split: if_splits)
  show ?case
  proof (cases p1)
    case True
    with s1 cd1 show ?thesis
      by (intro exI [of _ s1] exI [of _ cd1] exI [of _ True]) (simp add: item)
  next
    case False
    from Cons.prems have rest: "\<forall>item \<in> set items. stage_of (fst item) \<noteq> ''drafting''"
      by simp
    from Cons.IH [OF s1(2) rest, of cd1]
    obtain s2 cd2 p2 where s2: "process_nodes k ev items (s1, cd1) = ((s2, cd2), p2)"
      "registered s2 k" "p2 \<longrightarrow> ''approval'' \<in> fst ` set items" "cd2 \<longrightarrow> cd1"
      "\<forall>stat. stage_updates ''drafting'' stat s2 = stage_updates ''drafting'' stat s1"
      by blast
    with False s1 cd1 show ?thesis
      by (intro exI [of _ s2] exI [of _ cd2] exI [of _ p2]) (simp add: item)
  qed
qed

lemma process_events_append:
  "process_events k (a @ b) sc =
     (case process_events k a sc of
        (sc1, True) \<Rightarrow> (sc1, True)
      | (sc1, False) \<Rightarrow> process_events k b sc1)"
  by (induction a arbitrary: sc) (auto split: prod.splits bool.splits)


lemma process_events_other:
  assumes "registered s k"
    and "\<forall>ev \<in> set evs. \<forall>item \<in> set ev. stage_of (fst item) \<noteq> ''drafting''"
  shows "\<exists>s' cd' paused. process_events k evs (s, cd) = ((s', cd'), paused) \<and>
      registered s' k \<and> (paused \<longrightarrow> (\<exists>ev \<in> set evs. ''approval'' \<in> fst ` set ev)) \<and>
      (cd' \<longrightarrow> cd) \<and>
      (\<forall>stat. stage_updates ''drafting'' stat s' = stage_updates ''drafting'' stat s)"
  using assms
proof (induction evs arbitrary: s cd)
  case Nil
  then show ?case by (intro exI [of _ s] exI [of _ cd] exI [of _ False]) simp
next
  case (Cons ev evs)
  from Cons.prems have here: "\<forall>item \<in> set ev. stage_of (fst item) \<noteq> ''drafting''"
    and rest: "\<forall>ev \<in> set evs. \<forall>item \<in> set ev. stage_of (fst item) \<noteq> ''drafting''"
    by simp_all
  from process_nodes_other [OF Cons.prems(1) here, of ev cd]
  obtain s1 cd1 p1 where s1: "process_nodes k ev ev (s, cd) = ((s1, cd1), p1)"
    "registered s1 k" "p1 \<longrightarrow> ''approval'' \<in> fst ` set ev" "cd1 \<longrightarrow> cd"
    "\<forall>stat. stage_updates ''drafting'' stat s1 = stage_updates ''drafting'' stat s"
    by blast
  show ?case
  proof (cases p1)
    case True
    with s1 show ?thesis
      by (intro exI [of _ s1] exI [of _ cd1] exI [of _ True]) simp
  next
    case False
    from Cons.IH [OF s1(2) rest, of cd1]
    obtain s2 cd2 p2 where s2: "process_events k evs (s1, cd1) = ((s2, cd2), p2)"
      "registered s2 k" "p2 \<longrightarrow> (\<exists>ev \<in> set evs. ''approval'' \<in> fst ` set ev)" "cd2 \<longrightarrow> cd1"
      "\<forall>stat. stage_updates ''drafting'' stat s2 = stage_updates ''drafting'' stat s1"
      by blast
    with False s1 show ?thesis
      by (intro exI [of _ s2] exI [of _ cd2] exI [of _ p2]) simp
  qed
qed

lemma process_events_drafting:
  assumes "registered s k"
    and "\<forall>ev \<in> set ds. ev \<noteq> [] \<and> (\<forall>item \<in> set ev. stage_of (fst item) = ''drafting'')"
  shows "\<exists>s'. process_events k ds (s, cd) = ((s', cd \<or> ds \<noteq> []), False) \<and>
      registered s' k \<and>
      stage_updates ''drafting'' ''running'' s' =
        stage_updates ''drafting'' ''running'' s + (if cd \<or> ds = [] then 0 else 1) \<and>
      stage_updates ''drafting'' ''completed'' s' =
        stage_updates ''drafting'' ''completed'' s +
          sum_list (map (\<lambda>ev. if ''draft_instagram'' \<in> fst ` set ev then length ev else 0) ds)"
  using assms
proof (induction ds arbitrary: s cd)
  case Nil
  then show ?case by simp
next
  case (Cons ev ds)
  from Cons.prems have here: "\<forall>item \<in> set ev. stage_of (fst item) = ''drafting''"
    and ne: "ev \<noteq> []"
    and rest: "\<forall>ev \<in> set ds. ev \<noteq> [] \<and> (\<forall>item \<in> set ev. stage_of (fst item) = ''drafting'')"
    by simp_all
  from process_nodes_drafting [OF Cons.prems(1) here, of ev cd] ne
  obtain s1 where s1: "process_nodes k ev ev (s, cd) = ((s1, True), False)"
    "registered s1 k"
    "stage_updates ''drafting'' ''running'' s1 =
        stage_updates ''drafting'' ''running'' s + (if cd then 0 else 1)"
    "stage_updates ''drafting'' ''completed'' s1 =
        stage_updates ''drafting'' ''completed'' s +
          (if ''draft_instagram'' \<in> fst ` set ev then length ev else 0)"
    by auto
  from Cons.IH [OF s1(2) rest, of True]
  obtain s2 where s2: "process_events k ds (s1, True) = ((s2, True), False)"
    "registered s2 k"
    "stage_updates ''drafting'' ''running'' s2 = stage_updates ''drafting'' ''running'' s1"
    "stage_updates ''drafting'' ''completed'' s2 =
        stage_updates ''drafting'' ''completed'' s1 +
          sum_list (map (\<lambda>ev. if ''draft_instagram'' \<in> fst ` set ev then length ev else 0) ds)"
    by auto
  show ?case
    using s1 s2 by simp
qed

lemma final_update_drafting:
  "registered s k \<Longrightarrow>
   stage_updates ''drafting'' stat (final_update k s) = stage_updates ''drafting'' stat s"
  by (simp add: final_update_def stage_updates_modify_campaign stage_updates_update_stage
      split: option.splits)

lemma handle_failure_drafting:
  assumes "registered s k" and "stat \<noteq> ''failed''"
  shows "\<exists>s'. handle_failure k exc s = Inr s' \<and>
     stage_updates ''drafting'' stat s' = stage_updates ''drafting'' stat s"
  using assms
  by (auto simp add: handle_failure_def registered_def stage_updates_modify_campaign
      stage_updates_update_stage)


text \<open>
  C4, as stated, fails on the code: completion of the drafting stage is detected by the
  hardcoded key \<open>draft_instagram\<close>, not by membership in a channel set. With the channels
  email, sms and linkedin the drafting stage gets its one \<open>running\<close> update and no
  \<open>completed\<close> update at all; and when the four drafting nodes arrive in one event, every
  one of them finds \<open>draft_instagram\<close> in the event, so four \<open>completed\<close> updates are made.
\<close>

theorem drafting_completion_counterexample:
  "(case run_campaign_workflow ''c1''
      \<lparr>yielded = [[(''ingestion'', empty_state)], [(''persona'', empty_state)],
                  [(''draft_email'', empty_state)], [(''draft_sms'', empty_state)],
                  [(''draft_linkedin'', empty_state)]],
       raised = None\<rparr>
      (snd (create_campaign ''c1'' [] init_manager)) of
      Inl _ \<Rightarrow> False
    | Inr s \<Rightarrow> stage_updates ''drafting'' ''running'' s = 1 \<and>
               stage_updates ''drafting'' ''completed'' s = 0) \<and>
   (case run_campaign_workflow ''c1''
      \<lparr>yielded = [[(''ingestion'', empty_state)], [(''persona'', empty_state)],
                  [(''draft_email'', empty_state), (''draft_sms'', empty_state),
                   (''draft_linkedin'', empty_state), (''draft_instagram'', empty_state)]],
       raised = None\<rparr>
      (snd (create_campaign ''c1'' [] init_manager)) of
      Inl _ \<Rightarrow> False
    | Inr s \<Rightarrow> stage_updates ''drafting'' ''running'' s = 1 \<and>
               stage_updates ''drafting'' ''completed'' s = 4)"
  by code_simp

text \<open>
  C4, amended. For a campaign in the registry, let the stream deliver first events without
  drafting or approval nodes, then a non-empty run of non-empty events whose nodes all map
  to the drafting stage, then events without drafting nodes, and then end or raise. The
  driver returns normally; it emits exactly one \<open>running\<close> update for the combined
  drafting stage; and it emits one \<open>completed\<close> update for every drafting node that is
  delivered in an event containing the key \<open>draft_instagram\<close>. (So with one node per event
  and \<open>draft_instagram\<close> delivered once there is exactly one \<open>completed\<close> update, made
  when \<open>draft_instagram\<close> is processed.)
\<close>

theorem drafting_stage_updates:
  assumes reg: "registered s k"
    and pre: "\<forall>ev \<in> set pre. \<forall>item \<in> set ev.
                stage_of (fst item) \<noteq> ''drafting'' \<and> fst item \<noteq> ''approval''"
    and ne: "ds \<noteq> []"
    and ds: "\<forall>ev \<in> set ds. ev \<noteq> [] \<and> (\<forall>item \<in> set ev. stage_of (fst item) = ''drafting'')"
    and post: "\<forall>ev \<in> set post. \<forall>item \<in> set ev. stage_of (fst item) \<noteq> ''drafting''"
  shows "\<exists>s'. run_campaign_workflow k \<lparr>yielded = pre @ ds @ post, raised = exc\<rparr> s = Inr s' \<and>
      stage_updates ''drafting'' ''running'' s' = stage_updates ''drafting'' ''running'' s + 1 \<and>
      stage_updates ''drafting'' ''completed'' s' =
        stage_updates ''drafting'' ''completed'' s +
          sum_list (map (\<lambda>ev. if ''draft_instagram'' \<in> fst ` set ev then length ev else 0) ds)"
proof -
  from pre have pre': "\<forall>ev \<in> set pre. \<forall>item \<in> set ev. stage_of (fst item) \<noteq> ''drafting''"
    by blast
  from pre have noappr: "\<not> (\<exists>ev \<in> set pre. ''approval'' \<in> fst ` set ev)"
    by force
  from process_events_other [OF reg pre', of False] noappr
  obtain s1 where s1: "process_events k pre (s, False) = ((s1, False), False)"
    "registered s1 k"
    "\<forall>stat. stage_updates ''drafting'' stat s1 = stage_updates ''drafting'' stat s"
    by (metis (full_types))
  from process_events_drafting [OF s1(2) ds, of False] ne
  obtain s2 where s2: "process_events k ds (s1, False) = ((s2, True), False)"
    "registered s2 k"
    "stage_updates ''drafting'' ''running'' s2 = stage_updates ''drafting'' ''running'' s1 + 1"
    "stage_updates ''drafting'' ''completed'' s2 =
        stage_updates ''drafting'' ''completed'' s1 +
          sum_list (map (\<lambda>ev. if ''draft_instagram'' \<in> fst ` set ev then length ev else 0) ds)"
    by auto
  from process_events_other [OF s2(2) post, of True]
  obtain s3 cd3 p3 where s3: "process_events k post (s2, True) = ((s3, cd3), p3)"
    "registered s3 k"
    "\<forall>stat. stage_updates ''drafting'' stat s3 = stage_updates ''drafting'' stat s2"
    by blast
  have all: "process_events k (pre @ ds @ post) (s, False) = ((s3, cd3), p3)"
    using s1(1) s2(1) s3(1) by (simp add: process_events_append)
  have run: "stage_updates ''drafting'' ''running'' s3 = stage_updates ''drafting'' ''running'' s + 1"
    using s1(3) s2(3) s3(3) by simp
  have com: "stage_updates ''drafting'' ''completed'' s3 =
      stage_updates ''drafting'' ''completed'' s +
        sum_list (map (\<lambda>ev. if ''draft_instagram'' \<in> fst ` set ev then length ev else 0) ds)"
    using s1(3) s2(4) s3(3) by simp
  show ?thesis
  proof (cases p3)
    case True
    with all run com show ?thesis by (simp add: run_campaign_workflow_def)
  next
    case False
    note unpaused = this
    show ?thesis
    proof (cases exc)
      case None
      with unpaused all run com s3(2) show ?thesis
        by (simp add: run_campaign_workflow_def final_update_drafting)
    next
      case (Some e)
      from handle_failure_drafting [OF s3(2), of "''running''" e]
        handle_failure_drafting [OF s3(2), of "''completed''" e]
      obtain s4 where "handle_failure k e s3 = Inr s4"
        "stage_updates ''drafting'' ''running'' s4 = stage_updates ''drafting'' ''running'' s3"
        "stage_updates ''drafting'' ''completed'' s4 = stage_updates ''drafting'' ''completed'' s3"
        by auto
      with Some unpaused all run com show ?thesis
        by (simp add: run_campaign_workflow_def)
    qed
  qed
qed

lemma registered_create: "registered (snd (create_campaign u i s)) u"
  by (simp add: registered_def create_campaign_def get_campaign_def utcnow_def Let_def
      map_of_update_same)

theorem drafting_stage_updates_witness:
  "registered (snd (create_campaign ''c1'' [] init_manager)) ''c1'' \<and>
   (\<exists>s'. run_campaign_workflow ''c1''
      \<lparr>yielded = [[(''ingestion'', empty_state)], [(''persona'', empty_state)]] @
                 [[(''draft_linkedin'', empty_state)], [(''draft_instagram'', empty_state)],
                  [(''draft_email'', empty_state)], [(''draft_sms'', empty_state)]] @
                 [[(''scoring'', empty_state)]],
       raised = None\<rparr>
      (snd (create_campaign ''c1'' [] init_manager)) = Inr s' \<and>
      stage_updates ''drafting'' ''running'' s' = 1 \<and>
      stage_updates ''drafting'' ''completed'' s' = 1)"
proof -
  define s0 where "s0 = snd (create_campaign ''c1'' [] init_manager)"
  have reg: "registered s0 ''c1''"
    unfolding s0_def by (rule registered_create)
  have zero: "stage_updates ''drafting'' stat s0 = 0" for stat
    by (simp add: s0_def stage_updates_def create_campaign_def utcnow_def Let_def
        init_manager_def)
  have so: "stage_of ''ingestion'' = ''ingestion''" "stage_of ''persona'' = ''persona''"
    "stage_of ''scoring'' = ''scoring''" "stage_of ''draft_email'' = ''drafting''"
    "stage_of ''draft_sms'' = ''drafting''" "stage_of ''draft_linkedin'' = ''drafting''"
    "stage_of ''draft_instagram'' = ''drafting''"
    by (simp_all add: stage_of_def stage_map_def)
  have "\<exists>s'. run_campaign_workflow ''c1''
      \<lparr>yielded = [[(''ingestion'', empty_state)], [(''persona'', empty_state)]] @
                 [[(''draft_linkedin'', empty_state)], [(''draft_instagram'', empty_state)],
                  [(''draft_email'', empty_state)], [(''draft_sms'', empty_state)]] @
                 [[(''scoring'', empty_state)]],
       raised = None\<rparr> s0 = Inr s' \<and>
      stage_updates ''drafting'' ''running'' s' = stage_updates ''drafting'' ''running'' s0 + 1 \<and>
      stage_updates ''drafting'' ''completed'' s' =
        stage_updates ''drafting'' ''completed'' s0 +
          sum_list (map (\<lambda>ev. if ''draft_instagram'' \<in> fst ` set ev then length ev else 0)
            [[(''draft_linkedin'', empty_state)], [(''draft_instagram'', empty_state)],
                  [(''draft_email'', empty_state)], [(''draft_sms'', empty_state)]])"
    by (rule drafting_stage_updates [OF reg]) (simp_all add: so)
  then show ?thesis
    using reg by (simp add: zero s0_def [symmetric])
qed

text \<open>
  C5, at a failing persona worker. The stream yields the ingestion node's event and then
  raises. The driver marks the campaign failed and stores the error text, and no
  \<open>running\<close> update is made for persona or any later stage; but the stage entry it marks
  \<open>failed\<close> is that of \<open>current_stage\<close>, the last stage that reported, which is
  ingestion. The entry of the persona stage, whose worker failed, is still \<open>pending\<close>.
\<close>

theorem persona_failure_marks_ingestion:
  "(case run_campaign_workflow ''c1''
      \<lparr>yielded = [[(''ingestion'', empty_state)]], raised = Some ''persona worker failed''\<rparr>
      (snd (create_campaign ''c1'' [] init_manager)) of
      Inl _ \<Rightarrow> False
    | Inr s \<Rightarrow>
       (case get_campaign s ''c1'' of
          None \<Rightarrow> False
        | Some c \<Rightarrow>
            status c = ''failed'' \<and> error c = Some ''persona worker failed'' \<and>
            map_option se_status (map_of (stages c) ''persona'') = Some ''pending'' \<and>
            map_option se_status (map_of (stages c) ''ingestion'') = Some ''failed'' \<and>
            map (\<lambda>(k, e). (ev_stage e, ev_status e)) (ready s) =
              [(''ingestion'', ''running''), (''ingestion'', ''completed''),
               (''ingestion'', ''failed'')]))"
  by code_simp

subsection \<open>The approval and regeneration loop\<close>

text \<open>The branches of one iteration.\<close>

lemma rounds_scoring_fails:
  "scoring_node w st = Inl e \<Longrightarrow>
   approval_rounds w r st ins out = (Inl e, ins, out @ [Stage_Scoring])"
  by (subst approval_rounds.simps) simp

lemma rounds_eof:
  "scoring_node w st = Inr st1 \<Longrightarrow>
   approval_rounds w r st [] out = (Inl EOFError, [], out @ [Stage_Scoring, Stage_Human_Approval])"
  by (subst approval_rounds.simps) simp

lemma rounds_break:
  "scoring_node w st = Inr st1 \<Longrightarrow> snd (parse_choices line) = [] \<Longrightarrow>
   approval_rounds w r st (line # ins) out =
     (Inr (mark_approved (fst (parse_choices line)) st1), ins,
      out @ [Stage_Scoring, Stage_Human_Approval])"
  by (subst approval_rounds.simps) (simp add: Let_def)

lemma rounds_limit:
  "scoring_node w st = Inr st1 \<Longrightarrow> snd (parse_choices line) \<noteq> [] \<Longrightarrow> MAX_REGEN \<le> r \<Longrightarrow>
   approval_rounds w r st (line # ins) out =
     (Inr (mark_approved (fst (parse_choices line)) st1), ins,
      out @ [Stage_Scoring, Stage_Human_Approval, Max_Regen_Warning])"
  by (subst approval_rounds.simps) (simp add: Let_def)

lemma rounds_regen_fails:
  "scoring_node w st = Inr st1 \<Longrightarrow> snd (parse_choices line) \<noteq> [] \<Longrightarrow> r < MAX_REGEN \<Longrightarrow>
   regenerate (generate_draft w) (snd (parse_choices line))
     (mark_approved (fst (parse_choices line)) st1)
     (draft_list (mark_approved (fst (parse_choices line)) st1)) = Inl e \<Longrightarrow>
   approval_rounds w r st (line # ins) out =
     (Inl e, ins,
      out @ [Stage_Scoring, Stage_Human_Approval,
             Stage_Regenerating (snd (parse_choices line)) (Suc r)])"
  by (subst approval_rounds.simps) (simp add: Let_def)

lemma rounds_regen:
  "scoring_node w st = Inr st1 \<Longrightarrow> snd (parse_choices line) \<noteq> [] \<Longrightarrow> r < MAX_REGEN \<Longrightarrow>
   regenerate (generate_draft w) (snd (parse_choices line))
     (mark_approved (fst (parse_choices line)) st1)
     (draft_list (mark_approved (fst (parse_choices line)) st1)) = Inr new_drafts \<Longrightarrow>
   approval_rounds w r st (line # ins) out =
     approval_rounds w (Suc r)
       ((mark_approved (fst (parse_choices line)) st1)\<lparr>drafts := Some new_drafts\<rparr>) ins
       (out @ [Stage_Scoring, Stage_Human_Approval,
               Stage_Regenerating (snd (parse_choices line)) (Suc r)])"
  by (subst approval_rounds.simps) (simp add: Let_def)

text \<open>
  An iteration prints \<open>SCORING\<close> once and reads at most one line; a regeneration round
  prints its stage line once and advances \<open>regen_round\<close>.
\<close>

lemma rounds_trace:
  "r \<le> MAX_REGEN \<Longrightarrow> approval_rounds w r st ins out = (res, ins', out') \<Longrightarrow>
   \<exists>new. out' = out @ new \<and>
     count_list new Stage_Scoring + r \<le> MAX_REGEN + 1 \<and>
     length (filter is_regenerating new) + r \<le> MAX_REGEN \<and>
     length ins \<le> length ins' + count_list new Stage_Scoring"
proof (induction "MAX_REGEN - r" arbitrary: r st ins out rule: less_induct)
  case less
  show ?case
  proof (cases "scoring_node w st")
    case (Inl e)
    with less.prems show ?thesis by (auto simp add: rounds_scoring_fails)
  next
    case (Inr st1)
    note sc = this
    show ?thesis
    proof (cases ins)
      case Nil
      with sc less.prems show ?thesis by (auto simp add: rounds_eof)
    next
      case (Cons line ins1)
      show ?thesis
      proof (cases "snd (parse_choices line) = []")
        case True
        with sc Cons less.prems show ?thesis by (auto simp add: rounds_break)
      next
        case False
        note rg = this
        show ?thesis
        proof (cases "r < MAX_REGEN")
          case False
          with sc Cons rg less.prems show ?thesis by (auto simp add: rounds_limit)
        next
          case True
          show ?thesis
          proof (cases "regenerate (generate_draft w) (snd (parse_choices line))
                (mark_approved (fst (parse_choices line)) st1)
                (draft_list (mark_approved (fst (parse_choices line)) st1))")
            case (Inl e)
            with sc Cons rg True less.prems show ?thesis
              by (auto simp add: rounds_regen_fails [OF sc rg True Inl])
          next
            case (Inr nd)
            let ?out = "out @ [Stage_Scoring, Stage_Human_Approval,
                Stage_Regenerating (snd (parse_choices line)) (Suc r)]"
            from rounds_regen [OF sc rg True Inr, of ins1 out] less.prems(2) Cons
            have eq: "approval_rounds w (Suc r)
                ((mark_approved (fst (parse_choices line)) st1)\<lparr>drafts := Some nd\<rparr>) ins1 ?out
                = (res, ins', out')"
              by simp
            from True have m: "MAX_REGEN - Suc r < MAX_REGEN - r" and le: "Suc r \<le> MAX_REGEN"
              by simp_all
            from less.hyps [OF m le eq]
            obtain new where new: "out' = ?out @ new"
              "count_list new Stage_Scoring + Suc r \<le> MAX_REGEN + 1"
              "length (filter is_regenerating new) + Suc r \<le> MAX_REGEN"
              "length ins1 \<le> length ins' + count_list new Stage_Scoring"
              by blast
            show ?thesis
              by (rule exI [of _ "[Stage_Scoring, Stage_Human_Approval,
                Stage_Regenerating (snd (parse_choices line)) (Suc r)] @ new"])
                (use new Cons in simp)
          qed
        qed
      qed
    qed
  qed
qed


lemma draft_list_mark_approved:
  "draft_list (mark_approved a st) =
     map (\<lambda>d. d\<lparr>approved := (channel d \<in> set a)\<rparr>) (draft_list st)"
  by (simp add: mark_approved_def draft_list_def Let_def)

lemma approved_channels_mark_approved:
  "approved_channels (mark_approved a st) = Some a"
  by (simp add: mark_approved_def Let_def)

lemma regenerate_keeps:
  "regenerate gen rg st ds = Inr new_drafts \<Longrightarrow>
   length new_drafts = length ds \<and>
   (\<forall>i < length ds. channel (ds ! i) \<notin> set rg \<longrightarrow> new_drafts ! i = ds ! i)"
proof (induction ds arbitrary: new_drafts)
  case Nil
  then show ?case by simp
next
  case (Cons d ds)
  from Cons.prems obtain rest where rest: "regenerate gen rg st ds = Inr rest"
    by (auto split: if_splits sum.splits)
  from Cons.IH [OF rest] have ih: "length rest = length ds"
    "\<forall>i < length ds. channel (ds ! i) \<notin> set rg \<longrightarrow> rest ! i = ds ! i"
    by simp_all
  from Cons.prems rest obtain nd where nd: "new_drafts = nd # rest"
    "channel d \<notin> set rg \<longrightarrow> nd = d"
    by (auto split: if_splits sum.splits)
  show ?case
    using ih nd by (auto simp add: nth_Cons')
qed

text \<open>
  The loop that prints the execution results: an entry without a channel is printed with
  \<open>?\<close>, and an entry that is no dict, or whose channel is no string, ends the function
  before persistence.
\<close>

lemma print_results_examples:
  "print_results [PDict [(''channel'', PStr ''email''), (''status'', PStr ''sent'')], PDict []] =
     (None, [Result_Line ''email'' (PStr ''sent'')
               (PDict [(''channel'', PStr ''email''), (''status'', PStr ''sent'')]),
             Result_Line ''?'' (PStr ''unknown'') (PDict [])]) \<and>
   print_results [PDict [], PDict [(''channel'', PNone)], PDict []] =
     (Some AttributeError, [Result_Line ''?'' (PStr ''unknown'') (PDict [])]) \<and>
   after_loop
     (demo_workers\<lparr>execution_node :=
        \<lambda>st. Inr (st\<lparr>other := [(''execution_results'', PList [PStr ''sent''])]\<rparr>)\<rparr>)
     demo_state [] [] = (Inl AttributeError, [], [Stage_Execution]) \<and>
   after_loop
     (demo_workers\<lparr>execution_node :=
        \<lambda>st. Inr (st\<lparr>other := [(''execution_results'', PNone)]\<rparr>)\<rparr>)
     demo_state [] [] = (Inl TypeError, [], [Stage_Execution])"
  by code_simp

text \<open>Three regenerating iterations and a 4th request.\<close>

lemma rounds_regen_step:
  "regen_step w line st = Inr st' \<Longrightarrow> snd (parse_choices line) \<noteq> [] \<Longrightarrow> r < MAX_REGEN \<Longrightarrow>
   approval_rounds w r st (line # ins) out =
     approval_rounds w (Suc r) st' ins
       (out @ [Stage_Scoring, Stage_Human_Approval,
               Stage_Regenerating (snd (parse_choices line)) (Suc r)])"
  by (auto simp add: regen_step_def Let_def rounds_regen split: sum.splits)

lemma after_loop_execution_fails:
  "execution_node w st = Inl e \<Longrightarrow> after_loop w st ins out = (Inl e, ins, out @ [Stage_Execution])"
  by (simp add: after_loop_def)

lemma after_loop_executes:
  "execution_node w st = Inr st2 \<Longrightarrow>
   \<exists>res tl. after_loop w st ins out = (res, ins, out @ Stage_Execution # tl) \<and>
     (\<forall>st3. res = Inr st3 \<longrightarrow> persistence_node w st2 = Inr st3)"
  by (auto simp add: after_loop_def split: sum.splits prod.splits option.splits)

lemma four_requests:
  assumes s1: "regen_step w l1 st = Inr s1" and s2: "regen_step w l2 s1 = Inr s2"
    and s3: "regen_step w l3 s2 = Inr s3" and s4: "scoring_node w s3 = Inr s4"
    and r1: "snd (parse_choices l1) \<noteq> []" and r2: "snd (parse_choices l2) \<noteq> []"
    and r3: "snd (parse_choices l3) \<noteq> []" and r4: "snd (parse_choices l4) \<noteq> []"
  shows "approval_rounds w 0 st (l1 # l2 # l3 # l4 # rest) [] =
     (Inr (mark_approved (fst (parse_choices l4)) s4), rest,
      [Stage_Scoring, Stage_Human_Approval, Stage_Regenerating (snd (parse_choices l1)) 1,
       Stage_Scoring, Stage_Human_Approval, Stage_Regenerating (snd (parse_choices l2)) 2,
       Stage_Scoring, Stage_Human_Approval, Stage_Regenerating (snd (parse_choices l3)) 3,
       Stage_Scoring, Stage_Human_Approval, Max_Regen_Warning])"
proof -
  have a: "approval_rounds w 0 st (l1 # l2 # l3 # l4 # rest) [] =
      approval_rounds w (Suc 0) s1 (l2 # l3 # l4 # rest)
        ([] @ [Stage_Scoring, Stage_Human_Approval,
               Stage_Regenerating (snd (parse_choices l1)) (Suc 0)])"
    by (rule rounds_regen_step [OF s1 r1]) (simp add: MAX_REGEN_def)
  have b: "approval_rounds w (Suc 0) s1 (l2 # l3 # l4 # rest) out =
      approval_rounds w (Suc (Suc 0)) s2 (l3 # l4 # rest)
        (out @ [Stage_Scoring, Stage_Human_Approval,
               Stage_Regenerating (snd (parse_choices l2)) (Suc (Suc 0))])" for out
    by (rule rounds_regen_step [OF s2 r2]) (simp add: MAX_REGEN_def)
  have c: "approval_rounds w (Suc (Suc 0)) s2 (l3 # l4 # rest) out =
      approval_rounds w (Suc (Suc (Suc 0))) s3 (l4 # rest)
        (out @ [Stage_Scoring, Stage_Human_Approval,
               Stage_Regenerating (snd (parse_choices l3)) (Suc (Suc (Suc 0)))])" for out
    by (rule rounds_regen_step [OF s3 r3]) (simp add: MAX_REGEN_def)
  have d: "approval_rounds w (Suc (Suc (Suc 0))) s3 (l4 # rest) out =
      (Inr (mark_approved (fst (parse_choices l4)) s4), rest,
       out @ [Stage_Scoring, Stage_Human_Approval, Max_Regen_Warning])" for out
    by (rule rounds_limit [OF s4 r4]) (simp add: MAX_REGEN_def)
  show ?thesis
    unfolding a b c d by (simp add: numeral_2_eq_2 numeral_3_eq_3)
qed

text \<open>
  C1, as stated, fails on the code: at the 4th regeneration request the drafts in the state
  are not left untouched. Two drafts, email and sms; the first two lines ask for sms again,
  the third approves email and asks for sms again, so the state in which the 4th line is
  read has email approved; the 4th line asks for sms again. No draft is regenerated, but
  the loop ends with email unapproved and an empty \<open>approved_channels\<close>.
\<close>

theorem fourth_request_resets_approved_counterexample:
  "(case regen_step demo_workers ''sms=regen'' demo_state of
      Inl e \<Rightarrow> False
    | Inr s1 \<Rightarrow>
       (case regen_step demo_workers ''sms=regen'' s1 of
          Inl e \<Rightarrow> False
        | Inr s2 \<Rightarrow>
           (case regen_step demo_workers ''email=approve sms=regen'' s2 of
              Inl e \<Rightarrow> False
            | Inr s3 \<Rightarrow>
               map approved (draft_list s3) = [True, False] \<and>
               approved_channels s3 = Some [''email''] \<and>
               approval_rounds demo_workers 0 demo_state
                 [''sms=regen'', ''sms=regen'', ''email=approve sms=regen'', ''sms=regen''] [] =
               approval_rounds demo_workers MAX_REGEN s3 [''sms=regen'']
                 [Stage_Scoring, Stage_Human_Approval, Stage_Regenerating [''sms''] 1,
                  Stage_Scoring, Stage_Human_Approval, Stage_Regenerating [''sms''] 2,
                  Stage_Scoring, Stage_Human_Approval, Stage_Regenerating [''sms''] 3] \<and>
               (case approval_rounds demo_workers MAX_REGEN s3 [''sms=regen''] [] of
                  (Inl e, rest, out) \<Rightarrow> False
                | (Inr st', rest, out) \<Rightarrow>
                    out = [Stage_Scoring, Stage_Human_Approval, Max_Regen_Warning] \<and>
                    map body (draft_list st') = map body (draft_list s3) \<and>
                    map approved (draft_list st') = [False, False] \<and>
                    approved_channels st' = Some [] \<and>
                    draft_list st' \<noteq> draft_list s3))))"
  by code_simp


text \<open>
  C1, amended. \<open>MAX_REGEN\<close> is 3. A run of the loop from \<open>regen_round = 0\<close>, whatever the
  workers return and whatever is typed, scores at most \<open>MAX_REGEN + 1 = 4\<close> times, starts
  at most \<open>MAX_REGEN\<close> regeneration rounds and reads at most 4 lines; the loop is a total
  function of its inputs. For a decision with a non-empty regen list: while \<open>regen_round\<close>
  is below the limit, a successful regeneration continues the loop with \<open>regen_round\<close>
  advanced by one; once \<open>regen_round\<close> has reached \<open>MAX_REGEN\<close> (the 4th request) the loop
  prints the warning and breaks without calling the draft generator. The drafts it hands
  on are the scored drafts, each with its \<open>approved\<close> flag set anew from this decision and
  nothing else changed. After three regenerating iterations and a 4th request,
  \<open>run_approval_loop\<close> goes on behind the loop with exactly that state, and what it does
  there starts with \<open>execution_node\<close> on it: an exception of \<open>execution_node\<close> is the
  result, otherwise the state returned at the end is that of \<open>persistence_node\<close> on what
  \<open>execution_node\<close> returned.
\<close>

theorem approval_loop_bounded:
  "MAX_REGEN = 3 \<and>
   (approval_rounds w 0 st ins [] = (res, ins', out) \<longrightarrow>
      count_list out Stage_Scoring \<le> MAX_REGEN + 1 \<and>
      length (filter is_regenerating out) \<le> MAX_REGEN \<and>
      length ins \<le> length ins' + (MAX_REGEN + 1)) \<and>
   (scoring_node w st = Inr st1 \<and> snd (parse_choices line) \<noteq> [] \<longrightarrow>
      (\<forall>r new_drafts. r < MAX_REGEN \<and>
         regenerate (generate_draft w) (snd (parse_choices line))
           (mark_approved (fst (parse_choices line)) st1)
           (draft_list (mark_approved (fst (parse_choices line)) st1)) = Inr new_drafts \<longrightarrow>
         approval_rounds w r st (line # ins0) out0 =
           approval_rounds w (Suc r)
             ((mark_approved (fst (parse_choices line)) st1)\<lparr>drafts := Some new_drafts\<rparr>) ins0
             (out0 @ [Stage_Scoring, Stage_Human_Approval,
                      Stage_Regenerating (snd (parse_choices line)) (Suc r)])) \<and>
      approval_rounds w MAX_REGEN st (line # ins0) out0 =
        (Inr (mark_approved (fst (parse_choices line)) st1), ins0,
         out0 @ [Stage_Scoring, Stage_Human_Approval, Max_Regen_Warning]) \<and>
      draft_list (mark_approved (fst (parse_choices line)) st1) =
        map (\<lambda>d. d\<lparr>approved := (channel d \<in> set (fst (parse_choices line)))\<rparr>) (draft_list st1)) \<and>
   (regen_step w l1 st = Inr s1 \<and> regen_step w l2 s1 = Inr s2 \<and> regen_step w l3 s2 = Inr s3 \<and>
    scoring_node w s3 = Inr s4 \<and>
    snd (parse_choices l1) \<noteq> [] \<and> snd (parse_choices l2) \<noteq> [] \<and>
    snd (parse_choices l3) \<noteq> [] \<and> snd (parse_choices l4) \<noteq> [] \<longrightarrow>
      run_approval_loop w st (l1 # l2 # l3 # l4 # rest) =
        after_loop w (mark_approved (fst (parse_choices l4)) s4) rest
          [Stage_Scoring, Stage_Human_Approval, Stage_Regenerating (snd (parse_choices l1)) 1,
           Stage_Scoring, Stage_Human_Approval, Stage_Regenerating (snd (parse_choices l2)) 2,
           Stage_Scoring, Stage_Human_Approval, Stage_Regenerating (snd (parse_choices l3)) 3,
           Stage_Scoring, Stage_Human_Approval, Max_Regen_Warning]) \<and>
   (\<forall>e. execution_node w st' = Inl e \<longrightarrow>
      after_loop w st' ins1 out1 = (Inl e, ins1, out1 @ [Stage_Execution])) \<and>
   (\<forall>st2. execution_node w st' = Inr st2 \<longrightarrow>
      (\<exists>res' tl. after_loop w st' ins1 out1 = (res', ins1, out1 @ Stage_Execution # tl) \<and>
         (\<forall>st3. res' = Inr st3 \<longrightarrow> persistence_node w st2 = Inr st3)))"
proof (intro conjI impI allI)
  show "MAX_REGEN = 3" by (simp add: MAX_REGEN_def)
next
  assume run: "approval_rounds w 0 st ins [] = (res, ins', out)"
  from rounds_trace [OF _ run]
  obtain new where new: "out = [] @ new" "count_list new Stage_Scoring + 0 \<le> MAX_REGEN + 1"
    "length (filter is_regenerating new) + 0 \<le> MAX_REGEN"
    "length ins \<le> length ins' + count_list new Stage_Scoring"
    by auto
  then show "count_list out Stage_Scoring \<le> MAX_REGEN + 1"
    and "length (filter is_regenerating out) \<le> MAX_REGEN"
    and "length ins \<le> length ins' + (MAX_REGEN + 1)"
    by simp_all
next
  fix r new_drafts
  assume "scoring_node w st = Inr st1 \<and> snd (parse_choices line) \<noteq> []"
    and "r < MAX_REGEN \<and>
         regenerate (generate_draft w) (snd (parse_choices line))
           (mark_approved (fst (parse_choices line)) st1)
           (draft_list (mark_approved (fst (parse_choices line)) st1)) = Inr new_drafts"
  then show "approval_rounds w r st (line # ins0) out0 =
           approval_rounds w (Suc r)
             ((mark_approved (fst (parse_choices line)) st1)\<lparr>drafts := Some new_drafts\<rparr>) ins0
             (out0 @ [Stage_Scoring, Stage_Human_Approval,
                      Stage_Regenerating (snd (parse_choices line)) (Suc r)])"
    by (simp add: rounds_regen)
next
  assume "scoring_node w st = Inr st1 \<and> snd (parse_choices line) \<noteq> []"
  then show "approval_rounds w MAX_REGEN st (line # ins0) out0 =
        (Inr (mark_approved (fst (parse_choices line)) st1), ins0,
         out0 @ [Stage_Scoring, Stage_Human_Approval, Max_Regen_Warning])"
    by (simp add: rounds_limit)
next
  show "draft_list (mark_approved (fst (parse_choices line)) st1) =
        map (\<lambda>d. d\<lparr>approved := (channel d \<in> set (fst (parse_choices line)))\<rparr>) (draft_list st1)"
    by (rule draft_list_mark_approved)
next
  assume h: "regen_step w l1 st = Inr s1 \<and> regen_step w l2 s1 = Inr s2 \<and>
    regen_step w l3 s2 = Inr s3 \<and> scoring_node w s3 = Inr s4 \<and>
    snd (parse_choices l1) \<noteq> [] \<and> snd (parse_choices l2) \<noteq> [] \<and>
    snd (parse_choices l3) \<noteq> [] \<and> snd (parse_choices l4) \<noteq> []"
  then have "approval_rounds w 0 st (l1 # l2 # l3 # l4 # rest) [] =
     (Inr (mark_approved (fst (parse_choices l4)) s4), rest,
      [Stage_Scoring, Stage_Human_Approval, Stage_Regenerating (snd (parse_choices l1)) 1,
       Stage_Scoring, Stage_Human_Approval, Stage_Regenerating (snd (parse_choices l2)) 2,
       Stage_Scoring, Stage_Human_Approval, Stage_Regenerating (snd (parse_choices l3)) 3,
       Stage_Scoring, Stage_Human_Approval, Max_Regen_Warning])"
    by (intro four_requests [of w l1 st s1 l2 s2 l3 s3 s4 l4]) simp_all
  then show "run_approval_loop w st (l1 # l2 # l3 # l4 # rest) =
        after_loop w (mark_approved (fst (parse_choices l4)) s4) rest
          [Stage_Scoring, Stage_Human_Approval, Stage_Regenerating (snd (parse_choices l1)) 1,
           Stage_Scoring, Stage_Human_Approval, Stage_Regenerating (snd (parse_choices l2)) 2,
           Stage_Scoring, Stage_Human_Approval, Stage_Regenerating (snd (parse_choices l3)) 3,
           Stage_Scoring, Stage_Human_Approval, Max_Regen_Warning]"
    by (simp add: run_approval_loop_def)
next
  fix e
  assume "execution_node w st' = Inl e"
  then show "after_loop w st' ins1 out1 = (Inl e, ins1, out1 @ [Stage_Execution])"
    by (rule after_loop_execution_fails)
next
  fix st2
  assume "execution_node w st' = Inr st2"
  then show "\<exists>res' tl. after_loop w st' ins1 out1 = (res', ins1, out1 @ Stage_Execution # tl) \<and>
         (\<forall>st3. res' = Inr st3 \<longrightarrow> persistence_node w st2 = Inr st3)"
    by (rule after_loop_executes)
qed


theorem approval_loop_bounded_witness:
  "(\<exists>s1 s2 s3.
      regen_step demo_workers ''sms=regen'' demo_state = Inr s1 \<and>
      regen_step demo_workers ''sms=regen'' s1 = Inr s2 \<and>
      regen_step demo_workers ''email=approve sms=regen'' s2 = Inr s3 \<and>
      scoring_node demo_workers s3 = Inr s3 \<and>
      snd (parse_choices ''sms=regen'') = [''sms''] \<and>
      snd (parse_choices ''email=approve sms=regen'') = [''sms''] \<and>
      map body (draft_list s3) = [''hello email'', ''regenerated''] \<and>
      map approved (draft_list s3) = [True, False] \<and>
      run_approval_loop demo_workers demo_state
        [''sms=regen'', ''sms=regen'', ''email=approve sms=regen'', ''sms=regen'', ''sms=approve'']
        = (Inr (mark_approved [] s3), [''sms=approve''],
           [Stage_Scoring, Stage_Human_Approval, Stage_Regenerating [''sms''] 1,
            Stage_Scoring, Stage_Human_Approval, Stage_Regenerating [''sms''] 2,
            Stage_Scoring, Stage_Human_Approval, Stage_Regenerating [''sms''] 3,
            Stage_Scoring, Stage_Human_Approval, Max_Regen_Warning,
            Stage_Execution, Stage_Persistence]) \<and>
      map body (draft_list (mark_approved [] s3)) = [''hello email'', ''regenerated''] \<and>
      map approved (draft_list (mark_approved [] s3)) = [False, False] \<and>
      approval_rounds demo_workers MAX_REGEN s3 [''sms=regen'', ''sms=approve''] [] =
        (Inr (mark_approved [] s3), [''sms=approve''],
         [Stage_Scoring, Stage_Human_Approval, Max_Regen_Warning])) \<and>
   (\<exists>res ins' out.
      approval_rounds demo_workers 0 demo_state
        [''sms=regen'', ''sms=regen'', ''email=approve sms=regen'', ''sms=regen'', ''sms=approve''] []
        = (res, ins', out) \<and>
      count_list out Stage_Scoring = 4 \<and> count_list out Stage_Scoring \<le> MAX_REGEN + 1 \<and>
      length (filter is_regenerating out) = 3 \<and>
      length (filter is_regenerating out) \<le> MAX_REGEN) \<and>
   execution_node (demo_workers\<lparr>execution_node := \<lambda>st. Inl (WorkerError ''send failed'')\<rparr>)
     demo_state = Inl (WorkerError ''send failed'') \<and>
   after_loop (demo_workers\<lparr>execution_node := \<lambda>st. Inl (WorkerError ''send failed'')\<rparr>)
     demo_state [] [Max_Regen_Warning] =
     (Inl (WorkerError ''send failed''), [], [Max_Regen_Warning, Stage_Execution])"
proof -
  let ?ins = "[''sms=regen'', ''sms=regen'', ''email=approve sms=regen'', ''sms=regen'',
    ''sms=approve'']"
  have val: "case regen_step demo_workers ''sms=regen'' demo_state of
      Inl e \<Rightarrow> False
    | Inr s1 \<Rightarrow>
       (case regen_step demo_workers ''sms=regen'' s1 of
          Inl e \<Rightarrow> False
        | Inr s2 \<Rightarrow>
           (case regen_step demo_workers ''email=approve sms=regen'' s2 of
              Inl e \<Rightarrow> False
            | Inr s3 \<Rightarrow>
               map body (draft_list s3) = [''hello email'', ''regenerated''] \<and>
               map approved (draft_list s3) = [True, False] \<and>
               map body (draft_list (mark_approved [] s3)) = [''hello email'', ''regenerated''] \<and>
               map approved (draft_list (mark_approved [] s3)) = [False, False] \<and>
               other s3 = []))"
    by code_simp
  then obtain s1 s2 s3 where s1: "regen_step demo_workers ''sms=regen'' demo_state = Inr s1"
    and s2: "regen_step demo_workers ''sms=regen'' s1 = Inr s2"
    and s3: "regen_step demo_workers ''email=approve sms=regen'' s2 = Inr s3"
    and b3: "map body (draft_list s3) = [''hello email'', ''regenerated'']"
    and a3: "map approved (draft_list s3) = [True, False]"
    and m: "map body (draft_list (mark_approved [] s3)) = [''hello email'', ''regenerated'']"
      "map approved (draft_list (mark_approved [] s3)) = [False, False]"
    and o3: "other s3 = []"
    by (auto split: sum.splits)
  have sc: "scoring_node demo_workers s3 = Inr s3"
    by (simp add: demo_workers_def)
  have pc: "parse_choices ''sms=regen'' = ([], [''sms''])"
    "parse_choices ''email=approve sms=regen'' = ([''email''], [''sms''])"
    by code_simp+
  obtain res ins' out where run: "approval_rounds demo_workers 0 demo_state ?ins [] = (res, ins', out)"
    by (cases "approval_rounds demo_workers 0 demo_state ?ins []") auto
  have cnt: "case approval_rounds demo_workers 0 demo_state ?ins [] of
       (r, rest, out) \<Rightarrow> count_list out Stage_Scoring = 4 \<and>
          length (filter is_regenerating out) = 3"
    by code_simp
  have ex: "execution_node demo_workers (mark_approved [] s3) = Inr (mark_approved [] s3)"
    by (simp add: demo_workers_def)
  note inst = approval_loop_bounded [where w = demo_workers and st = demo_state and ins = ?ins
      and res = res and ins' = ins' and out = out and ?st1.0 = demo_state
      and line = "''sms=regen''" and ins0 = "[''sms=approve'']" and out0 = "[]"
      and ?l1.0 = "''sms=regen''" and ?s1.0 = s1 and ?l2.0 = "''sms=regen''" and ?s2.0 = s2
      and ?l3.0 = "''email=approve sms=regen''" and ?s3.0 = s3 and ?s4.0 = s3
      and ?l4.0 = "''sms=regen''" and rest = "[''sms=approve'']"
      and st' = "mark_approved [] s3" and ?ins1.0 = "[''sms=approve'']" and ?out1.0 = "[]"]
  from inst run have bounds: "count_list out Stage_Scoring \<le> MAX_REGEN + 1"
    "length (filter is_regenerating out) \<le> MAX_REGEN"
    by simp_all
  from inst s1 s2 s3 sc pc
  have loop: "run_approval_loop demo_workers demo_state ?ins =
      after_loop demo_workers (mark_approved [] s3) [''sms=approve'']
        [Stage_Scoring, Stage_Human_Approval, Stage_Regenerating [''sms''] 1,
         Stage_Scoring, Stage_Human_Approval, Stage_Regenerating [''sms''] 2,
         Stage_Scoring, Stage_Human_Approval, Stage_Regenerating [''sms''] 3,
         Stage_Scoring, Stage_Human_Approval, Max_Regen_Warning]"
    by simp
  have al: "after_loop demo_workers (mark_approved [] s3) ins1 out1 =
      (Inr (mark_approved [] s3), ins1, out1 @ [Stage_Execution, Stage_Persistence])"
    for ins1 out1
    by (simp add: after_loop_def demo_workers_def mark_approved_def Let_def o3
        dict_get_default_def iterate_def)
  have lim: "approval_rounds demo_workers MAX_REGEN s3 [''sms=regen'', ''sms=approve''] [] =
        (Inr (mark_approved [] s3), [''sms=approve''],
         [Stage_Scoring, Stage_Human_Approval, Max_Regen_Warning])"
    using approval_loop_bounded [where w = demo_workers and st = s3 and ?st1.0 = s3
      and line = "''sms=regen''" and ins0 = "[''sms=approve'']" and out0 = "[]"] sc pc
    by simp
  from cnt run have cnt': "count_list out Stage_Scoring = 4"
    "length (filter is_regenerating out) = 3"
    by simp_all
  have fail: "after_loop (demo_workers\<lparr>execution_node := \<lambda>st. Inl (WorkerError ''send failed'')\<rparr>)
     demo_state [] [Max_Regen_Warning] =
     (Inl (WorkerError ''send failed''), [], [Max_Regen_Warning, Stage_Execution])"
    using approval_loop_bounded [where
        w = "demo_workers\<lparr>execution_node := \<lambda>st. Inl (WorkerError ''send failed'')\<rparr>"
        and st' = demo_state and ?ins1.0 = "[]" and ?out1.0 = "[Max_Regen_Warning]"]
    by simp
  show ?thesis
    using s1 s2 s3 sc pc b3 a3 loop al m lim run cnt' bounds fail by auto
qed



text \<open>
  The values listed by \<open>rounds_states\<close> are those of the run: the last of them is the
  state at \<open>break\<close>.
\<close>

lemma rounds_states_last:
  "approval_rounds w r st ins out = (Inr st', ins', out') \<Longrightarrow>
   rounds_states w r st ins \<noteq> [] \<and> last (rounds_states w r st ins) = st'"
proof (induction "MAX_REGEN - r" arbitrary: r st ins out rule: less_induct)
  case less
  show ?case
  proof (cases "scoring_node w st")
    case (Inl e)
    with less.prems show ?thesis by (simp add: rounds_scoring_fails)
  next
    case (Inr st1)
    note sc = this
    show ?thesis
    proof (cases ins)
      case Nil
      with sc less.prems show ?thesis by (simp add: rounds_eof)
    next
      case (Cons line ins1)
      let ?st2 = "mark_approved (fst (parse_choices line)) st1"
      show ?thesis
      proof (cases "snd (parse_choices line) = []")
        case True
        with sc Cons less.prems have "st' = ?st2"
          by (simp add: rounds_break)
        moreover have "rounds_states w r st ins = [st1, ?st2]"
          using sc Cons True by (subst rounds_states.simps) (simp add: Let_def)
        ultimately show ?thesis by simp
      next
        case False
        note rg = this
        show ?thesis
        proof (cases "r < MAX_REGEN")
          case False
          with sc Cons rg less.prems have "st' = ?st2"
            by (simp add: rounds_limit)
          moreover have "rounds_states w r st ins = [st1, ?st2]"
            using sc Cons rg False by (subst rounds_states.simps) (simp add: Let_def)
          ultimately show ?thesis by simp
        next
          case True
          show ?thesis
          proof (cases "regenerate (generate_draft w) (snd (parse_choices line)) ?st2
                (draft_list ?st2)")
            case (Inl e)
            with sc Cons rg True less.prems show ?thesis
              by (simp add: rounds_regen_fails [OF sc rg True Inl])
          next
            case (Inr nd)
            from rounds_regen [OF sc rg True Inr, of ins1 out] less.prems Cons
            have eq: "approval_rounds w (Suc r) (?st2\<lparr>drafts := Some nd\<rparr>) ins1
                (out @ [Stage_Scoring, Stage_Human_Approval,
                  Stage_Regenerating (snd (parse_choices line)) (Suc r)])
                = (Inr st', ins', out')"
              by simp
            from True have m: "MAX_REGEN - Suc r < MAX_REGEN - r" by simp
            note ih = less.hyps [OF m eq]
            have "rounds_states w r st ins =
                st1 # ?st2 # ?st2\<lparr>drafts := Some nd\<rparr> #
                rounds_states w (Suc r) (?st2\<lparr>drafts := Some nd\<rparr>) ins1"
              using sc Cons rg True Inr by (subst rounds_states.simps) (simp add: Let_def)
            with ih show ?thesis by simp
          qed
        qed
      qed
    qed
  qed
qed












text \<open>
  C6. Let a channel be in neither list of a round's decision. After the decision is applied
  its draft is the scored draft with \<open>approved = false\<close>, the channel is not among the
  state's \<open>approved_channels\<close>, and a regeneration for the round's regen list leaves the
  draft (body, subject, score) as it is. When the round is the last one (no regeneration
  was asked for, or the limit is reached), the state handed to execution has the draft
  unapproved and \<open>approved_channels\<close> without the channel.
\<close>

theorem unmentioned_channel_skipped:
  assumes i: "i < length (draft_list st1)"
    and na: "channel (draft_list st1 ! i) \<notin> set a"
    and nr: "channel (draft_list st1 ! i) \<notin> set rg"
  shows "draft_list (mark_approved a st1) ! i = (draft_list st1 ! i)\<lparr>approved := False\<rparr> \<and>
     approved_channels (mark_approved a st1) = Some a \<and>
     (\<forall>new_drafts.
        regenerate gen rg (mark_approved a st1) (draft_list (mark_approved a st1)) = Inr new_drafts
        \<longrightarrow> length new_drafts = length (draft_list st1) \<and>
            new_drafts ! i = (draft_list st1 ! i)\<lparr>approved := False\<rparr>) \<and>
     (\<forall>w st r line ins out.
        scoring_node w st = Inr st1 \<and> parse_choices line = (a, rg) \<and> (rg = [] \<or> MAX_REGEN \<le> r)
        \<longrightarrow> (\<exists>st2 out'. approval_rounds w r st (line # ins) out = (Inr st2, ins, out') \<and>
               draft_list st2 ! i = (draft_list st1 ! i)\<lparr>approved := False\<rparr> \<and>
               approved_channels st2 = Some a))"
proof -
  have m: "draft_list (mark_approved a st1) ! i = (draft_list st1 ! i)\<lparr>approved := False\<rparr>"
    using i na by (simp add: draft_list_mark_approved)
  have ch: "channel (draft_list (mark_approved a st1) ! i) \<notin> set rg"
    using nr by (simp add: m)
  have len: "length (draft_list (mark_approved a st1)) = length (draft_list st1)"
    by (simp add: draft_list_mark_approved)
  have r: "length new_drafts = length (draft_list st1) \<and>
      new_drafts ! i = (draft_list st1 ! i)\<lparr>approved := False\<rparr>"
    if "regenerate gen rg (mark_approved a st1) (draft_list (mark_approved a st1)) = Inr new_drafts"
    for new_drafts
    using regenerate_keeps [OF that] i ch len m by auto
  have l: "\<exists>st2 out'. approval_rounds w r st (line # ins) out = (Inr st2, ins, out') \<and>
               draft_list st2 ! i = (draft_list st1 ! i)\<lparr>approved := False\<rparr> \<and>
               approved_channels st2 = Some a"
    if "scoring_node w st = Inr st1 \<and> parse_choices line = (a, rg) \<and> (rg = [] \<or> MAX_REGEN \<le> r)"
    for w st r line ins out
  proof (cases "rg = []")
    case True
    with that have "approval_rounds w r st (line # ins) out =
        (Inr (mark_approved a st1), ins, out @ [Stage_Scoring, Stage_Human_Approval])"
      by (simp add: rounds_break)
    with m show ?thesis by (simp add: approved_channels_mark_approved)
  next
    case False
    with that have "approval_rounds w r st (line # ins) out =
        (Inr (mark_approved a st1), ins,
         out @ [Stage_Scoring, Stage_Human_Approval, Max_Regen_Warning])"
      by (simp add: rounds_limit)
    with m show ?thesis by (simp add: approved_channels_mark_approved)
  qed
  from m r l show ?thesis
    by (simp add: approved_channels_mark_approved)
qed

theorem unmentioned_channel_skipped_witness:
  "parse_choices ''sms=regen instagram=approve'' = ([''instagram''], [''sms'']) \<and>
   (0::nat) < length (draft_list demo_state) \<and>
   channel (draft_list demo_state ! 0) \<notin> set [''instagram''] \<and>
   channel (draft_list demo_state ! 0) \<notin> set [''sms''] \<and>
   draft_list (mark_approved [''instagram''] demo_state) ! 0 = demo_draft ''email'' \<and>
   (\<exists>new_drafts. regenerate (generate_draft demo_workers) [''sms'']
       (mark_approved [''instagram''] demo_state)
       (draft_list (mark_approved [''instagram''] demo_state)) = Inr new_drafts \<and>
      new_drafts ! 0 = demo_draft ''email'') \<and>
   (\<exists>st2 out'. approval_rounds demo_workers MAX_REGEN demo_state
        [''sms=regen instagram=approve''] [] = (Inr st2, [], out') \<and>
      draft_list st2 ! 0 = demo_draft ''email'' \<and> approved_channels st2 = Some [''instagram''])"
proof -
  have pc: "parse_choices ''sms=regen instagram=approve'' = ([''instagram''], [''sms''])"
    by code_simp
  have i: "(0::nat) < length (draft_list demo_state)"
    by (simp add: demo_state_def draft_list_def)
  have d0: "draft_list demo_state ! 0 = demo_draft ''email''"
    by (simp add: demo_state_def draft_list_def)
  have na: "channel (draft_list demo_state ! 0) \<notin> set [''instagram'']"
    and nr: "channel (draft_list demo_state ! 0) \<notin> set [''sms'']"
    by (simp_all add: d0 demo_draft_def)
  have un: "(demo_draft ''email'')\<lparr>approved := False\<rparr> = demo_draft ''email''"
    by (simp add: demo_draft_def)
  have sc: "scoring_node demo_workers demo_state = Inr demo_state"
    by (simp add: demo_workers_def)
  have "case regenerate (generate_draft demo_workers) [''sms'']
       (mark_approved [''instagram''] demo_state)
       (draft_list (mark_approved [''instagram''] demo_state)) of
       Inl e \<Rightarrow> False | Inr nd \<Rightarrow> True"
    by code_simp
  then obtain nd where nd: "regenerate (generate_draft demo_workers) [''sms'']
       (mark_approved [''instagram''] demo_state)
       (draft_list (mark_approved [''instagram''] demo_state)) = Inr nd"
    by (auto split: sum.splits)
  note inst = unmentioned_channel_skipped [OF i na nr, of "generate_draft demo_workers"]
  from inst have a: "draft_list (mark_approved [''instagram''] demo_state) ! 0 = demo_draft ''email''"
    by (simp add: d0 un)
  from inst nd have b: "nd ! 0 = demo_draft ''email''"
    by (simp add: d0 un)
  from inst sc pc have "\<exists>st2 out'. approval_rounds demo_workers MAX_REGEN demo_state
        (''sms=regen instagram=approve'' # []) [] = (Inr st2, [], out') \<and>
      draft_list st2 ! 0 = (draft_list demo_state ! 0)\<lparr>approved := False\<rparr> \<and>
      approved_channels st2 = Some [''instagram'']"
    by blast
  then have c: "\<exists>st2 out'. approval_rounds demo_workers MAX_REGEN demo_state
        [''sms=regen instagram=approve''] [] = (Inr st2, [], out') \<and>
      draft_list st2 ! 0 = demo_draft ''email'' \<and> approved_channels st2 = Some [''instagram'']"
    by (simp add: d0 un)
  from pc i na nr a b nd c show ?thesis by blast
qed

subsection \<open>Event delivery\<close>

lemma fold_queue_put:
  "fold (queue_put ev) qs s =
     s\<lparr>queue_store := (\<lambda>q. queue_store s q @ replicate (count_list qs q) ev)\<rparr>"
proof (induction qs arbitrary: s)
  case Nil
  then show ?case by simp
next
  case (Cons a qs)
  have "fold (queue_put ev) (a # qs) s = fold (queue_put ev) qs (queue_put ev a s)"
    by simp
  also have "\<dots> = (queue_put ev a s)\<lparr>queue_store :=
      (\<lambda>q. queue_store (queue_put ev a s) q @ replicate (count_list qs q) ev)\<rparr>"
    by (rule Cons.IH)
  also have "\<dots> = s\<lparr>queue_store :=
      (\<lambda>q. queue_store s q @ replicate (count_list (a # qs) q) ev)\<rparr>"
    by (auto simp add: queue_put_def fun_eq_iff)
  finally show ?case .
qed

lemma broadcast_event_eq:
  "broadcast_event k ev s =
     s\<lparr>queue_store := (\<lambda>q. queue_store s q @ replicate (count_list (queues_of s k) q) ev)\<rparr>"
  by (simp add: broadcast_event_def queues_of_def fold_queue_put split: option.splits)

lemma queues_of_subscribe:
  "queues_of (snd (subscribe k' s)) k =
     (if k = k' then queues_of s k' @ [next_queue s] else queues_of s k)"
proof (cases "map_of (event_queues s) k'")
  case None
  then have "k' \<notin> fst ` set (event_queues s)"
    by (simp add: map_of_eq_None_iff)
  with None show ?thesis
    by (simp add: subscribe_def queues_of_def Let_def map_of_update_same map_of_update_other)
next
  case (Some qs)
  then have "k' \<in> fst ` set (event_queues s)"
    by (metis map_of_eq_None_iff option.distinct(1))
  with Some show ?thesis
    by (simp add: subscribe_def queues_of_def Let_def map_of_update_same map_of_update_other)
qed

lemma queues_of_unsubscribe:
  "queues_of (unsubscribe k' q' s) k =
     (if k = k' then remove1 q' (queues_of s k') else queues_of s k)"
  by (auto simp add: unsubscribe_def queues_of_def map_of_update_same map_of_update_other
      split: option.splits)

lemma count_list_remove1_other:
  "q' \<noteq> q \<Longrightarrow> count_list (remove1 q' qs) q = count_list qs q"
  by (induction qs) auto


text \<open>What a handle has received together with what is still pending for its campaign.\<close>

lemma run_task_subscribed:
  assumes "subscribed s k q"
  shows "subscribed (run_task s) k q \<and>
     queue_store (run_task s) q @ events_for k (ready (run_task s)) =
       queue_store s q @ events_for k (ready s) \<and>
     length (ready (run_task s)) = length (ready s) - 1"
proof (cases "ready s")
  case Nil
  with assms show ?thesis by (simp add: run_task_def)
next
  case (Cons t rest)
  obtain k' ev where t: "t = (k', ev)" by (cases t)
  have eq: "run_task s = s\<lparr>ready := rest,
      queue_store := (\<lambda>q. queue_store s q @ replicate (count_list (queues_of s k') q) ev)\<rparr>"
    by (simp add: run_task_def Cons t broadcast_event_eq queues_of_def)
  have qo: "queues_of (run_task s) k'' = queues_of s k''" for k''
    by (simp add: eq queues_of_def)
  have cnt: "count_list (queues_of s k') q = (if k' = k then 1 else 0)"
    using assms by (auto simp add: subscribed_def)
  show ?thesis
    using assms by (auto simp add: subscribed_def qo) (simp_all add: eq Cons t cnt events_for_def)
qed

lemma apply_op_subscribed:
  assumes "subscribed s k q" and "x \<noteq> Run_Task" and "x \<noteq> Unsubscribe k q"
  shows "subscribed (apply_op x s) k q \<and> queue_store (apply_op x s) q = queue_store s q \<and>
     take (length (ready s)) (ready (apply_op x s)) = ready s"
proof (cases x)
  case (Update_Stage k' stage stat msg)
  have fields: "event_queues (update_stage k' stage stat msg s) = event_queues s"
    "next_queue (update_stage k' stage stat msg s) = next_queue s"
    "queue_store (update_stage k' stage stat msg s) = queue_store s"
    "take (length (ready s)) (ready (update_stage k' stage stat msg s)) = ready s"
    by (simp_all add: update_stage_def utcnow_def Let_def split: option.splits)
  with assms Update_Stage show ?thesis
    by (simp add: subscribed_def queues_of_def)
next
  case (Update_State k' snap)
  have fields: "event_queues (update_state k' snap s) = event_queues s"
    "next_queue (update_state k' snap s) = next_queue s"
    "queue_store (update_state k' snap s) = queue_store s"
    "ready (update_state k' snap s) = ready s"
    by (simp_all add: update_state_def Let_def split: option.splits)
  with assms Update_State show ?thesis
    by (simp add: subscribed_def queues_of_def)
next
  case (Subscribe k')
  have fields: "next_queue (snd (subscribe k' s)) = Suc (next_queue s)"
    "queue_store (snd (subscribe k' s)) = (queue_store s)(next_queue s := [])"
    "ready (snd (subscribe k' s)) = ready s"
    by (simp_all add: subscribe_def Let_def)
  from assms have "q < next_queue s" by (simp add: subscribed_def)
  with assms Subscribe fields show ?thesis
    by (auto simp add: subscribed_def queues_of_subscribe)
next
  case (Unsubscribe k' q')
  have fields: "next_queue (unsubscribe k' q' s) = next_queue s"
    "queue_store (unsubscribe k' q' s) = queue_store s"
    "ready (unsubscribe k' q' s) = ready s"
    by (simp_all add: unsubscribe_def split: option.splits)
  have notin: "q \<notin> set qs \<Longrightarrow> q \<notin> set (remove1 q' qs)" for qs
    by (metis notin_set_remove1)
  from assms Unsubscribe have "k' \<noteq> k \<or> q' \<noteq> q" by auto
  with assms Unsubscribe fields show ?thesis
    by (auto simp add: subscribed_def queues_of_unsubscribe count_list_remove1_other notin)
next
  case Run_Task
  with assms show ?thesis by simp
qed

lemma ops_delivery:
  assumes "subscribed s k q" and "Unsubscribe k q \<notin> set ops"
  shows "subscribed (fold apply_op ops s) k q \<and>
     queue_store (fold apply_op ops s) q @ events_for k (ready (fold apply_op ops s)) =
       queue_store s q @ events_for k (ready s) @ published k ops s"
  using assms
proof (induction ops arbitrary: s)
  case Nil
  then show ?case by simp
next
  case (Cons x ops)
  from Cons.prems have x: "x \<noteq> Unsubscribe k q" and rest: "Unsubscribe k q \<notin> set ops"
    by auto
  show ?case
  proof (cases "x = Run_Task")
    case True
    from run_task_subscribed [OF Cons.prems(1)]
    have sub: "subscribed (run_task s) k q"
      and v: "queue_store (run_task s) q @ events_for k (ready (run_task s)) =
        queue_store s q @ events_for k (ready s)"
      by simp_all
    from Cons.IH [OF sub rest] v True show ?thesis
      by simp
  next
    case False
    from apply_op_subscribed [OF Cons.prems(1) False x]
    have sub: "subscribed (apply_op x s) k q"
      and qs: "queue_store (apply_op x s) q = queue_store s q"
      and tk: "take (length (ready s)) (ready (apply_op x s)) = ready s"
      by simp_all
    have "ready (apply_op x s) = ready s @ drop (length (ready s)) (ready (apply_op x s))"
      by (metis append_take_drop_id tk)
    then have ev: "events_for k (ready (apply_op x s)) =
        events_for k (ready s) @ events_for k (drop (length (ready s)) (ready (apply_op x s)))"
      by (metis events_for_def filter_append map_append)
    from Cons.IH [OF sub rest] qs ev False show ?thesis
      by simp
  qed
qed

lemma drain_delivery:
  "subscribed s k q \<Longrightarrow>
   ready (drain s) = [] \<and> queue_store (drain s) q = queue_store s q @ events_for k (ready s)"
proof (induction "length (ready s)" arbitrary: s)
  case 0
  then show ?case by (simp add: drain_def events_for_def)
next
  case (Suc n)
  from run_task_subscribed [OF Suc.prems]
  have sub: "subscribed (run_task s) k q"
    and v: "queue_store (run_task s) q @ events_for k (ready (run_task s)) =
        queue_store s q @ events_for k (ready s)"
    and len: "length (ready (run_task s)) = length (ready s) - 1"
    by simp_all
  from len Suc.hyps(2) have n: "n = length (ready (run_task s))" by simp
  have "drain s = drain (run_task s)"
    using Suc.hyps(2) n by (simp add: drain_def funpow_swap1 del: funpow.simps)
      (metis funpow.simps(2) funpow_swap1 o_apply)
  with Suc.hyps(1) [OF n sub] v show ?case by simp
qed


lemma subscribe_subscribed:
  assumes "handles_allocated s"
  shows "subscribed (snd (subscribe k s)) k (fst (subscribe k s))"
proof -
  have q: "fst (subscribe k s) = next_queue s"
    and n: "next_queue (snd (subscribe k s)) = Suc (next_queue s)"
    by (simp_all add: subscribe_def Let_def)
  have fresh: "next_queue s \<notin> set (queues_of s k')" for k'
    using assms by (auto simp add: handles_allocated_def)
  then have "count_list (queues_of s k) (next_queue s) = 0"
    by (simp add: count_list_0_iff)
  with fresh show ?thesis
    by (simp add: subscribed_def q n queues_of_subscribe)
qed

lemma handles_allocated_init: "handles_allocated init_manager"
  by (simp add: handles_allocated_def queues_of_def init_manager_def)

lemma handles_allocated_create:
  "handles_allocated s \<Longrightarrow> handles_allocated (snd (create_campaign u i s))"
  by (auto simp add: handles_allocated_def queues_of_def create_campaign_def utcnow_def Let_def
      update_conv' split: option.splits if_splits)

text \<open>
  C8. Take a handle registered for campaign \<open>k\<close> the way \<open>subscribe\<close> registers it (on a
  manager whose registered handles are all allocated, \<open>subscribe\<close> returns such a handle),
  and any sequence of stage updates, state updates, subscriptions, unsubscriptions of other
  registrations and steps of the event loop, for any campaigns. When the loop has then run
  the pending broadcasts, the handle's queue holds what it held before, then the events of
  \<open>k\<close> that were pending, then the events the sequence published for \<open>k\<close>, in the order of
  publication. The statement is per campaign: it says nothing about how events of different
  campaigns are ordered relative to each other.
\<close>

theorem delivery_order:
  "(handles_allocated s0 \<longrightarrow> subscribed (snd (subscribe k s0)) k (fst (subscribe k s0))) \<and>
   (subscribed s k q \<and> Unsubscribe k q \<notin> set ops \<longrightarrow>
      queue_store (drain (fold apply_op ops s)) q =
        queue_store s q @ events_for k (ready s) @ published k ops s)"
proof (intro conjI impI)
  assume "handles_allocated s0"
  then show "subscribed (snd (subscribe k s0)) k (fst (subscribe k s0))"
    by (rule subscribe_subscribed)
next
  assume a: "subscribed s k q \<and> Unsubscribe k q \<notin> set ops"
  then have sub: "subscribed s k q" and un: "Unsubscribe k q \<notin> set ops"
    by simp_all
  from ops_delivery [OF sub un]
  have sub': "subscribed (fold apply_op ops s) k q"
    and v: "queue_store (fold apply_op ops s) q @ events_for k (ready (fold apply_op ops s)) =
       queue_store s q @ events_for k (ready s) @ published k ops s"
    by simp_all
  from drain_delivery [OF sub'] v
  show "queue_store (drain (fold apply_op ops s)) q =
        queue_store s q @ events_for k (ready s) @ published k ops s"
    by simp
qed

theorem delivery_order_witness:
  "handles_allocated (snd (create_campaign ''c1'' [] init_manager)) \<and>
   fst (subscribe ''c1'' (snd (create_campaign ''c1'' [] init_manager))) = 0 \<and>
   subscribed (snd (subscribe ''c1'' (snd (create_campaign ''c1'' [] init_manager)))) ''c1'' 0 \<and>
   Unsubscribe ''c1'' 0 \<notin> set
     [Update_Stage ''c1'' ''ingestion'' ''running'' ''a'', Run_Task,
      Update_Stage ''c1'' ''ingestion'' ''completed'' ''b'',
      Update_Stage ''c2'' ''ingestion'' ''running'' ''c'', Subscribe ''c1'',
      Update_Stage ''c1'' ''persona'' ''running'' ''d''] \<and>
   map (\<lambda>e. (ev_stage e, ev_status e))
     (queue_store (drain (fold apply_op
        [Update_Stage ''c1'' ''ingestion'' ''running'' ''a'', Run_Task,
         Update_Stage ''c1'' ''ingestion'' ''completed'' ''b'',
         Update_Stage ''c2'' ''ingestion'' ''running'' ''c'', Subscribe ''c1'',
         Update_Stage ''c1'' ''persona'' ''running'' ''d'']
        (snd (subscribe ''c1'' (snd (create_campaign ''c1'' [] init_manager)))))) 0) =
     [(''ingestion'', ''running''), (''ingestion'', ''completed''), (''persona'', ''running'')]"
proof -
  define s0 where "s0 = snd (create_campaign ''c1'' [] init_manager)"
  define s where "s = snd (subscribe ''c1'' s0)"
  define ops where "ops = [Update_Stage ''c1'' ''ingestion'' ''running'' ''a'', Run_Task,
         Update_Stage ''c1'' ''ingestion'' ''completed'' ''b'',
         Update_Stage ''c2'' ''ingestion'' ''running'' ''c'', Subscribe ''c1'',
         Update_Stage ''c1'' ''persona'' ''running'' ''d'']"
  have ha: "handles_allocated s0"
    unfolding s0_def by (intro handles_allocated_create handles_allocated_init)
  have q: "fst (subscribe ''c1'' s0) = 0"
    by (simp add: s0_def subscribe_def Let_def create_campaign_def utcnow_def init_manager_def)
  note inst = delivery_order [of s0 "''c1''" s 0 ops]
  from inst ha q have sub: "subscribed s ''c1'' 0"
    by (simp add: s_def)
  have un: "Unsubscribe ''c1'' 0 \<notin> set ops"
    by (simp add: ops_def)
  from inst sub un have eq: "queue_store (drain (fold apply_op ops s)) 0 =
        queue_store s 0 @ events_for ''c1'' (ready s) @ published ''c1'' ops s"
    by simp
  have val: "map (\<lambda>e. (ev_stage e, ev_status e))
      (queue_store s 0 @ events_for ''c1'' (ready s) @ published ''c1'' ops s) =
     [(''ingestion'', ''running''), (''ingestion'', ''completed''), (''persona'', ''running'')]"
    unfolding s_def s0_def ops_def by code_simp
  from ha q sub un eq val show ?thesis
    unfolding s_def s0_def ops_def by simp
qed

subsection \<open>The sanitizer\<close>

text \<open>
  A word without the replacement's first character that starts the output of \<open>re_sub\<close>
  starts the input as well: it lies before the first replacement.
\<close>

lemma re_sub_prefix:
  "repl \<noteq> [] \<Longrightarrow> hd repl \<notin> set w \<Longrightarrow> prefix w (re_sub m repl s) \<Longrightarrow> prefix w s"
proof (induction s arbitrary: w)
  case Nil
  then show ?case by simp
next
  case (Cons c cs)
  show ?case
  proof (cases "m (c # cs)")
    case None
    show ?thesis
    proof (cases w)
      case Nil
      then show ?thesis by simp
    next
      case (Cons x w')
      with Cons.prems None have x: "x = c" and p: "prefix w' (re_sub m repl cs)"
        and h: "hd repl \<notin> set w'"
        by simp_all
      from Cons.IH [OF Cons.prems(1) h p] have "prefix w' cs" .
      with Cons x show ?thesis by simp
    qed
  next
    case (Some n)
    with Cons.prems have p: "prefix w (repl @ re_sub m repl (drop (n - 1) cs))"
      by simp
    have "w = []"
    proof (rule ccontr)
      assume "w \<noteq> []"
      with p Cons.prems(1) have "hd w = hd repl"
        by (cases w; cases repl) (auto simp add: prefix_Cons)
      with \<open>w \<noteq> []\<close> Cons.prems(2) show False
        by (cases w) auto
    qed
    then show ?thesis by simp
  qed
qed

text \<open>
  A word that cannot touch a replacement and occurs in the output of \<open>re_sub\<close> occurs in
  the input, at a place where the scan found no match.
\<close>

lemma re_sub_scan:
  assumes repl: "repl \<noteq> []" and hd: "hd repl \<notin> set w" and lst: "last repl \<notin> set w"
    and ns: "\<not> sublist w repl" and ne: "w \<noteq> []"
  shows "sublist w (re_sub m repl s) \<Longrightarrow> \<exists>s'. suffix s' s \<and> prefix w s' \<and> m s' = None"
proof (induction s rule: length_induct)
  case (1 s)
  show ?case
  proof (cases s)
    case Nil
    with "1.prems" ne show ?thesis by simp
  next
    case (Cons c cs)
    show ?thesis
    proof (cases "m (c # cs)")
      case None
      with "1.prems" Cons have "prefix w (c # re_sub m repl cs) \<or> sublist w (re_sub m repl cs)"
        by (simp add: sublist_Cons_right)
      then show ?thesis
      proof
        assume p: "prefix w (c # re_sub m repl cs)"
        from ne obtain x w' where w: "w = x # w'" by (cases w) auto
        with p have x: "x = c" and p': "prefix w' (re_sub m repl cs)" by simp_all
        from hd w have "hd repl \<notin> set w'" by simp
        from re_sub_prefix [OF repl this p'] have "prefix w' cs" .
        with w x have "prefix w (c # cs)" by simp
        with None Cons show ?thesis
          by (intro exI [of _ "c # cs"]) simp
      next
        assume sl: "sublist w (re_sub m repl cs)"
        have "length cs < length s" by (simp add: Cons)
        with "1.IH" sl obtain s' where "suffix s' cs" "prefix w s'" "m s' = None"
          by blast
        with Cons show ?thesis
          by (intro exI [of _ s']) (simp add: suffix_ConsI)
      qed
    next
      case (Some n)
      let ?rest = "drop (n - 1) cs"
      from "1.prems" Cons Some have "sublist w (repl @ re_sub m repl ?rest)"
        by simp
      then consider "sublist w repl" | "sublist w (re_sub m repl ?rest)"
        | w1 w2 where "w = w1 @ w2" "suffix w1 repl" "prefix w2 (re_sub m repl ?rest)"
        by (auto simp add: sublist_append)
      then show ?thesis
      proof cases
        case 1
        with ns show ?thesis by simp
      next
        case 2
        have "length ?rest < length s" by (simp add: Cons)
        with "1.IH" 2 obtain s' where s': "suffix s' ?rest" "prefix w s'" "m s' = None"
          by blast
        have "suffix ?rest s"
          unfolding Cons by (rule suffix_ConsI) (rule suffix_drop)
        with s' show ?thesis
          by (intro exI [of _ s']) (auto intro: suffix_order.trans)
      next
        case 3
        show ?thesis
        proof (cases "w1 = []")
          case True
          with 3 have "sublist w (re_sub m repl ?rest)" by auto
          have "length ?rest < length s" by (simp add: Cons)
          with "1.IH" \<open>sublist w (re_sub m repl ?rest)\<close>
          obtain s' where s': "suffix s' ?rest" "prefix w s'" "m s' = None"
            by blast
          have "suffix ?rest s"
            unfolding Cons by (rule suffix_ConsI) (rule suffix_drop)
          with s' show ?thesis
            by (intro exI [of _ s']) (auto intro: suffix_order.trans)
        next
          case False
          with 3(2) repl have "last w1 = last repl"
            by (auto simp add: suffix_def)
          with False 3(1) have "last repl \<in> set w"
            by (metis last_in_set Un_iff set_append)
          with lst show ?thesis by simp
        qed
      qed
    qed
  qed
qed


text \<open>The matchers find a match wherever the patterns have one.\<close>

lemma digit_phone_char: "is_digit c \<Longrightarrow> phone_char c"
  by (simp add: phone_char_def)

lemma word_domain_char: "is_word c \<Longrightarrow> domain_char c"
  by (simp add: domain_char_def)

lemma length_dropWhile_keeps:
  "\<not> P y \<Longrightarrow> Suc (length ys) \<le> length (dropWhile P (xs @ y # ys))"
  by (induction xs) auto

lemma phone_core_complete:
  assumes "is_digit d1" and "is_digit d2" and "7 \<le> length mid" and "\<forall>c \<in> set mid. phone_char c"
  shows "phone_core (d1 # mid @ d2 # rest) \<noteq> None"
proof -
  define run where "run = takeWhile phone_char (mid @ d2 # rest)"
  have run: "run = mid @ d2 # takeWhile phone_char rest"
    using assms by (simp add: run_def takeWhile_append2 digit_phone_char)
  have "rev run = rev (takeWhile phone_char rest) @ d2 # rev mid"
    by (simp add: run)
  with length_dropWhile_keeps [of "\<lambda>c. \<not> is_digit c" d2 "rev mid" "rev (takeWhile phone_char rest)"]
    assms(2)
  have "Suc (length mid) \<le> length (dropWhile (\<lambda>c. \<not> is_digit c) (rev run))"
    by simp
  with assms(3) have "8 \<le> length (rev (dropWhile (\<lambda>c. \<not> is_digit c) (rev run)))"
    by simp
  with assms(1) show ?thesis
    by (simp add: phone_core_def Let_def run_def)
qed

lemma phone_match_complete:
  assumes "w \<in> phone_lang" and "prefix w s"
  shows "phone_match s \<noteq> None"
proof -
  from assms(1) obtain p d1 mid d2 where w: "w = p @ [d1] @ mid @ [d2]"
    and p: "p = [] \<or> p = ''+''" and d: "is_digit d1" "is_digit d2"
    and mid: "7 \<le> length mid" "\<forall>c \<in> set mid. phone_char c"
    by (auto simp add: phone_lang_def)
  from assms(2) obtain rest where s: "s = w @ rest"
    by (auto simp add: prefix_def)
  note core = phone_core_complete [OF d mid, of rest]
  have np: "d1 \<noteq> CHR ''+''"
    using d(1) by (auto simp add: is_digit_def)
  from p show ?thesis
  proof
    assume "p = []"
    with core np show ?thesis
      by (simp add: s w phone_match_def)
  next
    assume "p = ''+''"
    with core show ?thesis
      by (auto simp add: s w phone_match_def split: option.splits)
  qed
qed

lemma not_local_at: "\<not> local_char CHR ''@''"
  by (simp add: local_char_def is_word_def)

lemma last_dot_found:
  assumes "2 \<le> length t" and "\<forall>c \<in> set t. is_word c"
  shows "last_dot (xs @ CHR ''.'' # t @ ys) \<noteq> None"
proof (induction xs)
  case Nil
  have "takeWhile is_word (t @ ys) = t @ takeWhile is_word ys"
    using assms(2) by (simp add: takeWhile_append2)
  with assms(1) show ?case
    by (simp split: option.splits)
next
  case (Cons x xs)
  then obtain n where "last_dot (xs @ CHR ''.'' # t @ ys) = Some n"
    by auto
  then show ?case by simp
qed

lemma email_match_found:
  assumes "takeWhile local_char s \<noteq> []"
    and "drop (length (takeWhile local_char s)) s = CHR ''@'' # rest"
    and "takeWhile domain_char rest = r # run"
    and "last_dot run \<noteq> None"
  shows "email_match s \<noteq> None"
  using assms unfolding email_match_def Let_def by auto

lemma email_match_complete:
  assumes "w \<in> email_lang" and "prefix w s"
  shows "email_match s \<noteq> None"
proof -
  from assms(1) obtain l d t where w: "w = l @ ''@'' @ d @ ''.'' @ t"
    and l: "l \<noteq> []" "\<forall>c \<in> set l. local_char c"
    and d: "d \<noteq> []" "\<forall>c \<in> set d. domain_char c"
    and t: "2 \<le> length t" "\<forall>c \<in> set t. is_word c"
    by (auto simp add: email_lang_def)
  from assms(2) obtain rest where s: "s = l @ CHR ''@'' # d @ CHR ''.'' # t @ rest"
    by (auto simp add: prefix_def w)
  have lp: "takeWhile local_char s = l"
    using l(2) by (simp add: s takeWhile_append2 not_local_at)
  have after: "drop (length l) s = CHR ''@'' # d @ CHR ''.'' # t @ rest"
    by (simp add: s)
  have tdom: "\<forall>c \<in> set t. domain_char c"
    using t(2) by (simp add: word_domain_char)
  from d(1) obtain r d' where dd: "d = r # d'"
    by (cases d) auto
  have run: "takeWhile domain_char (d @ CHR ''.'' # t @ rest) =
      r # (d' @ CHR ''.'' # t @ takeWhile domain_char rest)"
    using d(2) tdom by (simp add: dd takeWhile_append2 domain_char_def)
  show ?thesis
  proof (rule email_match_found)
    show "takeWhile local_char s \<noteq> []" using l(1) by (simp add: lp)
    show "drop (length (takeWhile local_char s)) s = CHR ''@'' # d @ CHR ''.'' # t @ rest"
      by (simp only: lp after)
    show "takeWhile domain_char (d @ CHR ''.'' # t @ rest) =
        r # (d' @ CHR ''.'' # t @ takeWhile domain_char rest)"
      by (rule run)
    show "last_dot (d' @ CHR ''.'' # t @ takeWhile domain_char rest) \<noteq> None"
      using t by (rule last_dot_found)
  qed
qed

text \<open>The characters of a match, and why a match cannot touch a replacement.\<close>

lemma phone_lang_chars:
  assumes "w \<in> phone_lang"
  shows "w \<noteq> []" and "\<exists>c \<in> set w. is_digit c"
    and "CHR ''['' \<notin> set w" and "CHR '']'' \<notin> set w"
proof -
  from assms obtain p d1 mid d2 where w: "w = p @ [d1] @ mid @ [d2]"
    and p: "p = [] \<or> p = ''+''" and d: "is_digit d1" "is_digit d2"
    and mid: "\<forall>c \<in> set mid. phone_char c"
    by (auto simp add: phone_lang_def)
  show "w \<noteq> []" by (simp add: w)
  show "\<exists>c \<in> set w. is_digit c" using d by (auto simp add: w)
  have nb: "\<not> phone_char CHR ''[''" "\<not> phone_char CHR '']''"
    "\<not> is_digit CHR ''[''" "\<not> is_digit CHR '']''"
    by (simp_all add: phone_char_def is_digit_def is_space_def)
  show "CHR ''['' \<notin> set w" using p d mid nb by (auto simp add: w)
  show "CHR '']'' \<notin> set w" using p d mid nb by (auto simp add: w)
qed

lemma email_lang_chars:
  assumes "w \<in> email_lang"
  shows "w \<noteq> []" and "CHR ''@'' \<in> set w"
    and "CHR ''['' \<notin> set w" and "CHR '']'' \<notin> set w"
proof -
  from assms obtain l d t where w: "w = l @ ''@'' @ d @ ''.'' @ t"
    and l: "\<forall>c \<in> set l. local_char c"
    and d: "\<forall>c \<in> set d. domain_char c"
    and t: "\<forall>c \<in> set t. is_word c"
    by (auto simp add: email_lang_def)
  show "w \<noteq> []" by (simp add: w)
  show "CHR ''@'' \<in> set w" by (simp add: w)
  have nb: "\<not> local_char CHR ''[''" "\<not> local_char CHR '']''"
    "\<not> domain_char CHR ''[''" "\<not> domain_char CHR '']''"
    "\<not> is_word CHR ''[''" "\<not> is_word CHR '']''"
    by (simp_all add: local_char_def domain_char_def is_word_def)
  show "CHR ''['' \<notin> set w" using l d t nb by (auto simp add: w)
  show "CHR '']'' \<notin> set w" using l d t nb by (auto simp add: w)
qed

lemma no_digit_in_replacements:
  "\<forall>c \<in> set ''[REDACTED-PHONE]''. \<not> is_digit c" "\<forall>c \<in> set ''[REDACTED-EMAIL]''. \<not> is_digit c"
  by (simp_all add: is_digit_def)

lemma phone_not_in_replacement:
  assumes "w \<in> phone_lang"
  shows "\<not> sublist w ''[REDACTED-PHONE]''" and "\<not> sublist w ''[REDACTED-EMAIL]''"
proof -
  from phone_lang_chars(2) [OF assms] obtain c where c: "c \<in> set w" "is_digit c" by blast
  show "\<not> sublist w ''[REDACTED-PHONE]''"
  proof
    assume "sublist w ''[REDACTED-PHONE]''"
    then have "set w \<subseteq> set ''[REDACTED-PHONE]''" by (rule set_mono_sublist)
    with c(1) have "c \<in> set ''[REDACTED-PHONE]''" by (rule rev_subsetD)
    with no_digit_in_replacements(1) have "\<not> is_digit c" by (rule bspec)
    with c(2) show False by simp
  qed
  show "\<not> sublist w ''[REDACTED-EMAIL]''"
  proof
    assume "sublist w ''[REDACTED-EMAIL]''"
    then have "set w \<subseteq> set ''[REDACTED-EMAIL]''" by (rule set_mono_sublist)
    with c(1) have "c \<in> set ''[REDACTED-EMAIL]''" by (rule rev_subsetD)
    with no_digit_in_replacements(2) have "\<not> is_digit c" by (rule bspec)
    with c(2) show False by simp
  qed
qed

lemma email_not_in_replacement:
  assumes "w \<in> email_lang"
  shows "\<not> sublist w ''[REDACTED-EMAIL]''"
proof
  assume "sublist w ''[REDACTED-EMAIL]''"
  then have "set w \<subseteq> set ''[REDACTED-EMAIL]''" by (rule set_mono_sublist)
  with email_lang_chars(2) [OF assms] have "CHR ''@'' \<in> set ''[REDACTED-EMAIL]''"
    by (rule rev_subsetD)
  then show False by simp
qed

lemma re_sub_scan_bracketed:
  assumes "hd repl = CHR ''[''" and "last repl = CHR '']''" and "repl \<noteq> []"
    and "CHR ''['' \<notin> set w" and "CHR '']'' \<notin> set w" and "\<not> sublist w repl" and "w \<noteq> []"
    and "sublist w (re_sub m repl s)"
  shows "\<exists>s'. suffix s' s \<and> prefix w s' \<and> m s' = None"
proof (rule re_sub_scan [of repl w m s])
  show "repl \<noteq> []" by fact
  show "hd repl \<notin> set w" using assms(1,4) by simp
  show "last repl \<notin> set w" using assms(2,5) by simp
  show "\<not> sublist w repl" by fact
  show "w \<noteq> []" by fact
  show "sublist w (re_sub m repl s)" by fact
qed

lemma replacement_brackets:
  "hd ''[REDACTED-PHONE]'' = CHR ''[''" "last ''[REDACTED-PHONE]'' = CHR '']''"
  "hd ''[REDACTED-EMAIL]'' = CHR ''[''" "last ''[REDACTED-EMAIL]'' = CHR '']''"
  "''[REDACTED-PHONE]'' \<noteq> []" "''[REDACTED-EMAIL]'' \<noteq> []"
  by simp_all

text \<open>Nothing that either pattern matches is left in a scrubbed text.\<close>

lemma scrub_text_pii_free: "pii_free (scrub_text text)"
  unfolding pii_free_def
proof (intro allI impI conjI)
  fix w
  assume sl: "sublist w (scrub_text text)"
  let ?t1 = "re_sub phone_match ''[REDACTED-PHONE]'' text"
  from sl have sl': "sublist w (re_sub email_match ''[REDACTED-EMAIL]'' ?t1)"
    by (simp only: scrub_text_def)
  show "w \<notin> phone_lang"
  proof
    assume w: "w \<in> phone_lang"
    note ch = phone_lang_chars [OF w] and nr = phone_not_in_replacement [OF w]
    from re_sub_scan_bracketed [OF replacement_brackets(3,4,6) ch(3,4) nr(2) ch(1) sl']
    obtain s' where "suffix s' ?t1" "prefix w s'"
      by blast
    then have "sublist w ?t1"
      unfolding sublist_altdef' by blast
    from re_sub_scan_bracketed [OF replacement_brackets(1,2,5) ch(3,4) nr(1) ch(1) this]
    obtain s'' where "prefix w s''" "phone_match s'' = None"
      by blast
    with phone_match_complete [OF w] show False by blast
  qed
  show "w \<notin> email_lang"
  proof
    assume w: "w \<in> email_lang"
    note ch = email_lang_chars [OF w] and nr = email_not_in_replacement [OF w]
    from re_sub_scan_bracketed [OF replacement_brackets(3,4,6) ch(3,4) nr ch(1) sl']
    obtain s' where "prefix w s'" "email_match s' = None"
      by blast
    with email_match_complete [OF w] show False by blast
  qed
qed

lemma keys_scrub_scalars:
  "fst ` set (scrub_scalars str_of payload keys safe) \<subseteq> set keys \<union> fst ` set safe"
proof (induction keys arbitrary: safe)
  case Nil
  then show ?case by simp
next
  case (Cons key keys)
  show ?case
  proof (cases "truthy (dict_get payload key)")
    case True
    define v where "v = PStr (scrub_text (py_str str_of (dict_get payload key)))"
    have eq: "scrub_scalars str_of payload (key # keys) safe =
        scrub_scalars str_of payload keys (AList.update key v safe)"
      using True by (simp add: Let_def v_def)
    have "fst ` set (scrub_scalars str_of payload keys (AList.update key v safe))
        \<subseteq> set keys \<union> fst ` set (AList.update key v safe)"
      by (rule Cons.IH)
    moreover have "fst ` set (AList.update key v safe) = {key} \<union> fst ` set safe"
      by (rule dom_update)
    ultimately show ?thesis
      unfolding eq by auto
  next
    case False
    then have eq: "scrub_scalars str_of payload (key # keys) safe =
        scrub_scalars str_of payload keys safe"
      by (simp add: Let_def)
    from Cons.IH [of safe] show ?thesis
      unfolding eq by auto
  qed
qed

lemma sanitize_links_entries:
  "sanitize_links v = Inr links \<Longrightarrow>
   set links \<subseteq> set (fields (if truthy v then v else PDict [])) \<and>
   (\<forall>(k, x) \<in> set links. lower k \<in> set allowed_link_keys \<and> is_str x)"
  by (auto simp add: sanitize_links_def fields_def Let_def split: pyval.splits if_splits)

lemma sanitize_draft_result:
  assumes "sanitize_draft d = Inr sd"
  shows "dict_get (fields sd) ''channel'' = dict_get_default (fields d) ''channel'' (PStr ''unknown'')"
    and "\<exists>b. dict_get (fields sd) ''body'' = PStr b \<and> pii_free b"
    and "dict_get (fields sd) ''subject'' = PNone \<or>
         (\<exists>t. dict_get (fields sd) ''subject'' = PStr t \<and> pii_free t)"
proof -
  from assms obtain kv where d: "d = PDict kv"
    by (cases d) (simp_all add: sanitize_draft_def)
  from assms d obtain subj b where
    subj: "(if truthy (dict_get kv ''subject'') then
              (case dict_get kv ''subject'' of PStr t \<Rightarrow> Inr (PStr (scrub_text t))
               | _ \<Rightarrow> Inl TypeError)
            else Inr PNone) = Inr subj"
    and b: "dict_get_default kv ''body'' (PStr []) = PStr b"
    and sd: "sd = PDict
        [(''channel'', dict_get_default kv ''channel'' (PStr ''unknown'')),
         (''subject'', subj),
         (''body'', PStr (scrub_text b)),
         (''score'', dict_get kv ''score''),
         (''approved'', dict_get_default kv ''approved'' (PBool False)),
         (''sent'', dict_get_default kv ''sent'' (PBool False))]"
    by (simp add: sanitize_draft_def split: sum.splits pyval.splits)
  show "dict_get (fields sd) ''channel'' = dict_get_default (fields d) ''channel'' (PStr ''unknown'')"
    by (simp add: sd d fields_def dict_get_def)
  show "\<exists>b. dict_get (fields sd) ''body'' = PStr b \<and> pii_free b"
    by (simp add: sd fields_def dict_get_def scrub_text_pii_free)
  from subj have "subj = PNone \<or> (\<exists>t. subj = PStr (scrub_text t))"
    by (auto split: if_splits pyval.splits)
  then show "dict_get (fields sd) ''subject'' = PNone \<or>
         (\<exists>t. dict_get (fields sd) ''subject'' = PStr t \<and> pii_free t)"
    by (auto simp add: sd fields_def dict_get_def scrub_text_pii_free)
qed

lemma sanitize_drafts_result:
  "sanitize_drafts ds = Inr safe_drafts \<Longrightarrow>
   list_all2 (\<lambda>d sd. sanitize_draft d = Inr sd) ds safe_drafts"
  by (induction ds arbitrary: safe_drafts) (auto split: sum.splits)

lemma keys_cond_update:
  "fst ` set (if c then AList.update k v al else al) \<subseteq> {k} \<union> fst ` set al"
  by (auto simp add: dom_update)

lemma map_of_cond_update:
  "k' \<noteq> k \<Longrightarrow> map_of (if c then AList.update k v al else al) k' = map_of al k'"
  by (simp add: map_of_update_other)

text \<open>The steps of a run of the sanitizer that returns.\<close>

lemma sanitize_for_storage_steps:
  assumes "sanitize_for_storage str_of payload = Inr safe"
  shows "\<exists>links ds safe_drafts safe6.
     sanitize_links (dict_get payload ''links'') = Inr links \<and>
     iterate (raw_drafts payload) = Inr ds \<and>
     sanitize_drafts ds = Inr safe_drafts \<and>
     safe = AList.update ''drafts'' (PList safe_drafts) safe6 \<and>
     fst ` set safe6 \<subseteq> set safe_keys \<and>
     map_of safe6 ''links'' = Some (PDict links)"
proof -
  define safe1 where "safe1 = scrub_scalars str_of payload [''company'', ''role'', ''industry''] []"
  obtain links where links: "sanitize_links (dict_get payload ''links'') = Inr links"
    using assms
    by (cases "sanitize_links (dict_get payload ''links'')")
      (simp_all add: sanitize_for_storage_def Let_def)
  define safe2 where "safe2 = AList.update ''links'' (PDict links) safe1"
  define safe3 where "safe3 = (if truthy (dict_get payload ''tone_json'')
      then AList.update ''tone_json'' (dict_get payload ''tone_json'') safe2 else safe2)"
  define r4 where "r4 = (if truthy (dict_get payload ''interests'') then
      (case iterate (dict_get payload ''interests'') of
         Inl e \<Rightarrow> Inl e
       | Inr xs \<Rightarrow> Inr (AList.update ''interests''
                          (PList (map (\<lambda>i. PStr (py_str str_of i)) xs)) safe3))
      else Inr safe3)"
  have unfold1: "sanitize_for_storage str_of payload =
      (case r4 of
         Inl e \<Rightarrow> Inl e
       | Inr safe4 \<Rightarrow>
           (let safe5 = (if truthy (dict_get payload ''recent_activity'')
                         then AList.update ''recent_activity''
                                (PStr (scrub_text (py_str str_of
                                   (dict_get payload ''recent_activity'')))) safe4
                         else safe4);
                safe6 = (if truthy (dict_get payload ''communication_style'')
                         then AList.update ''communication_style''
                                (PStr (scrub_text (py_str str_of
                                   (dict_get payload ''communication_style'')))) safe5
                         else safe5)
            in case iterate (raw_drafts payload) of
                 Inl e \<Rightarrow> Inl e
               | Inr ds \<Rightarrow>
                   (case sanitize_drafts ds of
                      Inl e \<Rightarrow> Inl e
                    | Inr safe_drafts \<Rightarrow>
                        Inr (AList.update ''drafts'' (PList safe_drafts) safe6))))"
    unfolding sanitize_for_storage_def Let_def r4_def safe3_def safe2_def safe1_def
    by (simp only: links sum.case)
  obtain safe4 where safe4: "r4 = Inr safe4"
    using assms unfolding unfold1 by (cases r4) simp_all
  define safe5 where "safe5 = (if truthy (dict_get payload ''recent_activity'')
      then AList.update ''recent_activity''
             (PStr (scrub_text (py_str str_of (dict_get payload ''recent_activity'')))) safe4
      else safe4)"
  define safe6 where "safe6 = (if truthy (dict_get payload ''communication_style'')
      then AList.update ''communication_style''
             (PStr (scrub_text (py_str str_of (dict_get payload ''communication_style'')))) safe5
      else safe5)"
  have unfold2: "sanitize_for_storage str_of payload =
      (case iterate (raw_drafts payload) of
         Inl e \<Rightarrow> Inl e
       | Inr ds \<Rightarrow>
           (case sanitize_drafts ds of
              Inl e \<Rightarrow> Inl e
            | Inr safe_drafts \<Rightarrow> Inr (AList.update ''drafts'' (PList safe_drafts) safe6)))"
    unfolding unfold1 safe4 safe6_def safe5_def Let_def by (simp only: sum.case)
  obtain ds where ds: "iterate (raw_drafts payload) = Inr ds"
    using assms unfolding unfold2 by (cases "iterate (raw_drafts payload)") simp_all
  obtain safe_drafts where sds: "sanitize_drafts ds = Inr safe_drafts"
    and safe: "safe = AList.update ''drafts'' (PList safe_drafts) safe6"
    using assms unfolding unfold2 ds by (cases "sanitize_drafts ds") auto
  have k1: "fst ` set safe1 \<subseteq> {''company'', ''role'', ''industry''}"
    using keys_scrub_scalars [of str_of payload "[''company'', ''role'', ''industry'']" "[]"]
    by (simp add: safe1_def)
  have k2: "fst ` set safe2 \<subseteq> {''links''} \<union> fst ` set safe1"
    by (simp add: safe2_def dom_update)
  have k3: "fst ` set safe3 \<subseteq> {''tone_json''} \<union> fst ` set safe2"
    unfolding safe3_def by (rule keys_cond_update)
  have s4: "safe4 = safe3 \<or> (\<exists>v. safe4 = AList.update ''interests'' v safe3)"
    using safe4 unfolding r4_def by (auto split: if_splits sum.splits)
  have k4: "fst ` set safe4 \<subseteq> {''interests''} \<union> fst ` set safe3"
  proof -
    from s4 consider "safe4 = safe3" | v where "safe4 = AList.update ''interests'' v safe3"
      by blast
    then show ?thesis
    proof cases
      case 1
      then show ?thesis by blast
    next
      case 2
      then show ?thesis by (simp add: dom_update)
    qed
  qed
  have k5: "fst ` set safe5 \<subseteq> {''recent_activity''} \<union> fst ` set safe4"
    unfolding safe5_def by (rule keys_cond_update)
  have k6: "fst ` set safe6 \<subseteq> {''communication_style''} \<union> fst ` set safe5"
    unfolding safe6_def by (rule keys_cond_update)
  have step: "A \<subseteq> {k} \<union> B \<Longrightarrow> B \<subseteq> C \<Longrightarrow> A \<subseteq> insert k C"
    for A B C :: "string set" and k
    by blast
  note step [OF k6 step [OF k5 step [OF k4 step [OF k3 step [OF k2 k1]]]]]
  moreover have "insert ''communication_style'' (insert ''recent_activity''
      (insert ''interests'' (insert ''tone_json'' (insert ''links''
        {''company'', ''role'', ''industry''})))) \<subseteq> set safe_keys"
    by (simp add: safe_keys_def)
  ultimately have keys: "fst ` set safe6 \<subseteq> set safe_keys"
    by (rule subset_trans)
  have l2: "map_of safe2 ''links'' = Some (PDict links)"
    by (simp add: safe2_def map_of_update_same)
  have l3: "map_of safe3 ''links'' = Some (PDict links)"
    unfolding safe3_def using l2 by (simp add: map_of_cond_update)
  have l4: "map_of safe4 ''links'' = Some (PDict links)"
    using s4 l3 by (auto simp add: map_of_update_other)
  have l5: "map_of safe5 ''links'' = Some (PDict links)"
    unfolding safe5_def using l4 by (simp add: map_of_cond_update)
  have l6: "map_of safe6 ''links'' = Some (PDict links)"
    unfolding safe6_def using l5 by (simp add: map_of_cond_update)
  from links ds sds safe keys l6 show ?thesis by blast
qed

lemma draft_ok_sanitize: "draft_ok d \<Longrightarrow> \<exists>sd. sanitize_draft d = Inr sd"
  by (auto simp add: draft_ok_def sanitize_draft_def is_str_def split: pyval.splits if_splits)

lemma drafts_ok_sanitize: "list_all draft_ok ds \<Longrightarrow> \<exists>safe_drafts. sanitize_drafts ds = Inr safe_drafts"
proof (induction ds)
  case Nil
  then show ?case by simp
next
  case (Cons d ds)
  then obtain sd rest where "sanitize_draft d = Inr sd" "sanitize_drafts ds = Inr rest"
    using draft_ok_sanitize [of d] by auto
  then show ?case by simp
qed

lemma well_shaped_returns:
  assumes "well_shaped payload"
  shows "\<exists>safe. sanitize_for_storage str_of payload = Inr safe"
proof -
  from assms
  have w1: "case dict_get payload ''links'' of PDict kvs \<Rightarrow> True | v \<Rightarrow> \<not> truthy v"
    and w2: "case dict_get payload ''interests'' of
        PList xs \<Rightarrow> True | PStr s \<Rightarrow> True | PDict kvs \<Rightarrow> True | v \<Rightarrow> \<not> truthy v"
    and w3: "case dict_get payload ''drafts'' of
        PList ds \<Rightarrow> list_all draft_ok ds | v \<Rightarrow> \<not> truthy v"
    by (simp_all add: well_shaped_def)
  from w1 have "\<exists>links. sanitize_links (dict_get payload ''links'') = Inr links"
    by (cases "dict_get payload ''links''") (simp_all add: sanitize_links_def)
  then obtain links where links: "sanitize_links (dict_get payload ''links'') = Inr links"
    by blast
  from w2 have int: "truthy (dict_get payload ''interests'') \<Longrightarrow>
      \<exists>xs. iterate (dict_get payload ''interests'') = Inr xs"
    by (cases "dict_get payload ''interests''") (simp_all add: iterate_def)
  from w3 have "\<exists>ds. iterate (raw_drafts payload) = Inr ds \<and> list_all draft_ok ds"
    by (cases "dict_get payload ''drafts''") (simp_all add: raw_drafts_def iterate_def)
  then obtain ds where ds: "iterate (raw_drafts payload) = Inr ds" "list_all draft_ok ds"
    by blast
  from drafts_ok_sanitize [OF ds(2)] obtain safe_drafts
    where sds: "sanitize_drafts ds = Inr safe_drafts"
    by blast
  show ?thesis
  proof (cases "truthy (dict_get payload ''interests'')")
    case True
    with int obtain xs where "iterate (dict_get payload ''interests'') = Inr xs" by blast
    with True links ds(1) sds show ?thesis
      by (simp add: sanitize_for_storage_def Let_def)
  next
    case False
    with links ds(1) sds show ?thesis
      by (simp add: sanitize_for_storage_def Let_def)
  qed
qed

text \<open>
  Beyond ASCII: a letter such as \<open>U+00E9\<close> is a word character and the no-break space is
  whitespace, for the patterns as for \<open>split\<close>, \<open>strip\<close> and the case mappings.
\<close>

lemma beyond_ascii_examples:
  "scrub_text (''jos'' @ [CHR 0xE9] @ ''@example.com'') = ''[REDACTED-EMAIL]'' \<and>
   scrub_text (''+1'' @ [CHR 0xA0] @ ''555'' @ [CHR 0xA0] @ ''123'' @ [CHR 0xA0] @ ''4567'')
     = ''[REDACTED-PHONE]'' \<and>
   parse_choices (''email=approve'' @ [CHR 0xA0] @ ''sms=REGEN'' @ [CHR 0x85])
     = ([''email''], [''sms'']) \<and>
   lower [CHR 0xC9, CHR 0xD7, CHR 0xDE, CHR 0xDF, CHR ''Z''] =
     [CHR 0xE9, CHR 0xD7, CHR 0xFE, CHR 0xDF, CHR ''z''] \<and>
   capitalize ''drAFTING'' = ''Drafting'' \<and>
   capitalize [CHR 0xE9, CHR 0xC9] = [CHR 0xC9, CHR 0xE9]"
  by code_simp

text \<open>
  C10. For a payload of the shape the sanitizer is written for, \<open>sanitize_for_storage\<close>
  returns; and whenever it returns (on any other value it raises), the keys of the result
  are among \<open>company\<close>, \<open>role\<close>, \<open>industry\<close>, \<open>links\<close>, \<open>tone_json\<close>, \<open>interests\<close>,
  \<open>recent_activity\<close>, \<open>communication_style\<close>, \<open>drafts\<close>; the result's \<open>links\<close> is a dict
  of entries of the payload's links whose lowercased key is an allowed public-profile key
  and whose value is a string; and the result's \<open>drafts\<close> is a list as long as the
  payload's, with the channels in the same order (\<open>unknown\<close> where a draft has none), in
  which every body is a string and every subject is \<open>None\<close> or a string, and no part of
  such a string is matched by the phone or the email pattern.
\<close>

theorem sanitize_for_storage_safe:
  "(well_shaped payload \<longrightarrow> (\<exists>safe. sanitize_for_storage str_of payload = Inr safe)) \<and>
   (\<forall>safe. sanitize_for_storage str_of payload = Inr safe \<longrightarrow>
      fst ` set safe \<subseteq> set safe_keys \<and>
      (\<exists>links. map_of safe ''links'' = Some (PDict links) \<and>
         set links \<subseteq> set (fields (dict_get payload ''links'')) \<and>
         (\<forall>(k, v) \<in> set links. lower k \<in> set allowed_link_keys \<and> is_str v)) \<and>
      (\<exists>ds safe_drafts.
         iterate (raw_drafts payload) = Inr ds \<and>
         map_of safe ''drafts'' = Some (PList safe_drafts) \<and>
         length safe_drafts = length ds \<and>
         map (\<lambda>sd. dict_get (fields sd) ''channel'') safe_drafts =
           map (\<lambda>d. dict_get_default (fields d) ''channel'' (PStr ''unknown'')) ds \<and>
         (\<forall>sd \<in> set safe_drafts.
            (\<exists>b. dict_get (fields sd) ''body'' = PStr b \<and> pii_free b) \<and>
            (dict_get (fields sd) ''subject'' = PNone \<or>
             (\<exists>t. dict_get (fields sd) ''subject'' = PStr t \<and> pii_free t)))))"
proof (intro conjI allI impI)
  assume "well_shaped payload"
  then show "\<exists>safe. sanitize_for_storage str_of payload = Inr safe"
    by (rule well_shaped_returns)
next
  fix safe
  assume run: "sanitize_for_storage str_of payload = Inr safe"
  from sanitize_for_storage_steps [OF run]
  obtain links ds safe_drafts safe6 where
    links: "sanitize_links (dict_get payload ''links'') = Inr links"
    and ds: "iterate (raw_drafts payload) = Inr ds"
    and sds: "sanitize_drafts ds = Inr safe_drafts"
    and safe: "safe = AList.update ''drafts'' (PList safe_drafts) safe6"
    and keys: "fst ` set safe6 \<subseteq> set safe_keys"
    and l6: "map_of safe6 ''links'' = Some (PDict links)"
    by blast
  have dk: "fst ` set safe = insert ''drafts'' (fst ` set safe6)"
    unfolding safe by (simp add: dom_update)
  have dm: "''drafts'' \<in> set safe_keys"
    by (simp add: safe_keys_def)
  show "fst ` set safe \<subseteq> set safe_keys"
    unfolding dk using dm keys by (rule insert_subsetI)
  note le = sanitize_links_entries [OF links]
  have fl: "fields (if truthy (dict_get payload ''links'')
      then dict_get payload ''links'' else PDict []) = fields (dict_get payload ''links'') \<or>
      fields (if truthy (dict_get payload ''links'')
      then dict_get payload ''links'' else PDict []) = []"
    by (simp add: fields_def)
  have sub: "set links \<subseteq> set (fields (dict_get payload ''links''))"
  proof
    fix e assume "e \<in> set links"
    with le have "e \<in> set (fields (if truthy (dict_get payload ''links'')
      then dict_get payload ''links'' else PDict []))"
      by (meson subsetD)
    with fl show "e \<in> set (fields (dict_get payload ''links''))"
      by (metis empty_iff empty_set)
  qed
  have ml: "map_of safe ''links'' = Some (PDict links)"
    unfolding safe using l6 by (simp add: map_of_update_other)
  show "\<exists>links. map_of safe ''links'' = Some (PDict links) \<and>
         set links \<subseteq> set (fields (dict_get payload ''links'')) \<and>
         (\<forall>(k, v) \<in> set links. lower k \<in> set allowed_link_keys \<and> is_str v)"
  proof (intro exI conjI)
    show "map_of safe ''links'' = Some (PDict links)" by (rule ml)
    show "set links \<subseteq> set (fields (dict_get payload ''links''))" by (rule sub)
    show "\<forall>(k, v) \<in> set links. lower k \<in> set allowed_link_keys \<and> is_str v"
      using le by (rule conjunct2)
  qed
  note rel = sanitize_drafts_result [OF sds]
  have len: "length safe_drafts = length ds"
    using list_all2_lengthD [OF rel] by simp
  have each: "sanitize_draft (ds ! i) = Inr (safe_drafts ! i)" if "i < length ds" for i
    using list_all2_nthD [OF rel that] .
  have chan: "map (\<lambda>sd. dict_get (fields sd) ''channel'') safe_drafts =
           map (\<lambda>d. dict_get_default (fields d) ''channel'' (PStr ''unknown'')) ds"
  proof (rule nth_equalityI)
    show "length (map (\<lambda>sd. dict_get (fields sd) ''channel'') safe_drafts) =
        length (map (\<lambda>d. dict_get_default (fields d) ''channel'' (PStr ''unknown'')) ds)"
      by (simp add: len)
  next
    fix i
    assume "i < length (map (\<lambda>sd. dict_get (fields sd) ''channel'') safe_drafts)"
    then have i: "i < length ds" by (simp add: len)
    from sanitize_draft_result(1) [OF each [OF i]]
    show "map (\<lambda>sd. dict_get (fields sd) ''channel'') safe_drafts ! i =
        map (\<lambda>d. dict_get_default (fields d) ''channel'' (PStr ''unknown'')) ds ! i"
      using i len by simp
  qed
  have clean: "(\<exists>b. dict_get (fields sd) ''body'' = PStr b \<and> pii_free b) \<and>
            (dict_get (fields sd) ''subject'' = PNone \<or>
             (\<exists>t. dict_get (fields sd) ''subject'' = PStr t \<and> pii_free t))"
    if "sd \<in> set safe_drafts" for sd
  proof -
    from that obtain i where i: "i < length safe_drafts" "sd = safe_drafts ! i"
      by (auto simp add: in_set_conv_nth)
    with len each [of i] have "sanitize_draft (ds ! i) = Inr sd" by simp
    from sanitize_draft_result(2) [OF this] sanitize_draft_result(3) [OF this]
    show ?thesis by (rule conjI)
  qed
  have md: "map_of safe ''drafts'' = Some (PList safe_drafts)"
    unfolding safe by (rule map_of_update_same)
  show "\<exists>ds safe_drafts.
         iterate (raw_drafts payload) = Inr ds \<and>
         map_of safe ''drafts'' = Some (PList safe_drafts) \<and>
         length safe_drafts = length ds \<and>
         map (\<lambda>sd. dict_get (fields sd) ''channel'') safe_drafts =
           map (\<lambda>d. dict_get_default (fields d) ''channel'' (PStr ''unknown'')) ds \<and>
         (\<forall>sd \<in> set safe_drafts.
            (\<exists>b. dict_get (fields sd) ''body'' = PStr b \<and> pii_free b) \<and>
            (dict_get (fields sd) ''subject'' = PNone \<or>
             (\<exists>t. dict_get (fields sd) ''subject'' = PStr t \<and> pii_free t)))"
  proof (rule exI [of _ ds], rule exI [of _ safe_drafts], intro conjI ballI)
    show "iterate (raw_drafts payload) = Inr ds" by (rule ds)
    show "map_of safe ''drafts'' = Some (PList safe_drafts)" by (rule md)
    show "length safe_drafts = length ds" by (rule len)
    show "map (\<lambda>sd. dict_get (fields sd) ''channel'') safe_drafts =
           map (\<lambda>d. dict_get_default (fields d) ''channel'' (PStr ''unknown'')) ds"
      by (rule chan)
  next
    fix sd assume "sd \<in> set safe_drafts"
    from clean [OF this]
    show "\<exists>b. dict_get (fields sd) ''body'' = PStr b \<and> pii_free b"
      and "dict_get (fields sd) ''subject'' = PNone \<or>
             (\<exists>t. dict_get (fields sd) ''subject'' = PStr t \<and> pii_free t)"
      by simp_all
  qed
qed

theorem sanitize_for_storage_safe_witness:
  "well_shaped demo_payload \<and>
   sanitize_for_storage (\<lambda>v. []) demo_payload =
     Inr [(''company'', PStr ''Acme, call [REDACTED-PHONE]''),
          (''links'', PDict [(''LinkedIn'', PStr ''https://linkedin.example/in/x'')]),
          (''drafts'', PList
            [PDict [(''channel'', PStr ''email''), (''subject'', PStr ''Hi [REDACTED-EMAIL]''),
                    (''body'', PStr ''Reach me at [REDACTED-PHONE].''), (''score'', PFloat 8),
                    (''approved'', PBool False), (''sent'', PBool False)],
             PDict [(''channel'', PStr ''sms''), (''subject'', PNone),
                    (''body'', PStr ''Mail [REDACTED-EMAIL] or call [REDACTED-PHONE]''),
                    (''score'', PNone),
                    (''approved'', PBool True), (''sent'', PBool False)]])] \<and>
   pii_free ''Reach me at [REDACTED-PHONE].'' \<and> pii_free ''Hi [REDACTED-EMAIL]'' \<and>
   pii_free ''Mail [REDACTED-EMAIL] or call [REDACTED-PHONE]''"
proof -
  define d1 where "d1 = PDict [(''channel'', PStr ''email''),
      (''subject'', PStr ''Hi [REDACTED-EMAIL]''),
      (''body'', PStr ''Reach me at [REDACTED-PHONE].''), (''score'', PFloat 8),
      (''approved'', PBool False), (''sent'', PBool False)]"
  define d2 where "d2 = PDict [(''channel'', PStr ''sms''), (''subject'', PNone),
      (''body'', PStr ''Mail [REDACTED-EMAIL] or call [REDACTED-PHONE]''),
                    (''score'', PNone),
      (''approved'', PBool True), (''sent'', PBool False)]"
  define safe where "safe = [(''company'', PStr ''Acme, call [REDACTED-PHONE]''),
      (''links'', PDict [(''LinkedIn'', PStr ''https://linkedin.example/in/x'')]),
      (''drafts'', PList [d1, d2])]"
  have ws: "well_shaped demo_payload"
    by code_simp
  have val: "sanitize_for_storage (\<lambda>v. []) demo_payload = Inr safe"
    unfolding safe_def d1_def d2_def by code_simp
  from sanitize_for_storage_safe [of demo_payload "\<lambda>v. []", THEN conjunct2, rule_format, OF val]
  obtain safe_drafts where sd: "map_of safe ''drafts'' = Some (PList safe_drafts)"
    and clean: "\<forall>sd \<in> set safe_drafts.
            (\<exists>b. dict_get (fields sd) ''body'' = PStr b \<and> pii_free b) \<and>
            (dict_get (fields sd) ''subject'' = PNone \<or>
             (\<exists>t. dict_get (fields sd) ''subject'' = PStr t \<and> pii_free t))"
    by blast
  from sd have "safe_drafts = [d1, d2]"
    by (simp add: safe_def)
  with clean have c1: "(\<exists>b. dict_get (fields d1) ''body'' = PStr b \<and> pii_free b) \<and>
            (dict_get (fields d1) ''subject'' = PNone \<or>
             (\<exists>t. dict_get (fields d1) ''subject'' = PStr t \<and> pii_free t))"
    and c2: "\<exists>b. dict_get (fields d2) ''body'' = PStr b \<and> pii_free b"
    by simp_all
  from c1 have p1: "pii_free ''Reach me at [REDACTED-PHONE].''"
    and p2: "pii_free ''Hi [REDACTED-EMAIL]''"
    by (simp_all add: d1_def fields_def dict_get_def)
  from c2 have p3: "pii_free ''Mail [REDACTED-EMAIL] or call [REDACTED-PHONE]''"
    by (simp add: d2_def fields_def dict_get_def)
  from ws val p1 p2 p3 show ?thesis
    unfolding safe_def d1_def d2_def by simp
qed

end
